theory Spec2Isabelle
  imports Main "HOL-Library.AList" "HOL-Library.Sublist"
begin

section \<open>Aurora Tabular Modeller: the document, the tree and the edit protocol\<close>

text \<open>
  A shallow embedding of \<^verbatim>\<open>src/aurora_tabular_modeller/main.py\<close>: the parsed document
  (\<^verbatim>\<open>self.bim_data\<close>), the tree of labelled items that \<^verbatim>\<open>load_tree\<close> builds, the
  selection handler \<^verbatim>\<open>on_tree_item_click\<close>, the path reconstruction
  \<^verbatim>\<open>get_json_path\<close>, the commit \<^verbatim>\<open>update_model_value\<close> and \<^verbatim>\<open>save_bim_file\<close>.

  Python text is modelled by \<^typ>\<open>string\<close>, a character being a code point below 256.
  An exception that the program does not catch is a value of \<open>py_error\<close>.
\<close>

subsection \<open>Python values\<close>

text \<open>
  What \<^verbatim>\<open>json.load\<close> returns: \<^verbatim>\<open>None\<close>, a \<^verbatim>\<open>bool\<close>, an \<^verbatim>\<open>int\<close>, a \<^verbatim>\<open>float\<close>,
  a \<^verbatim>\<open>str\<close>, a \<^verbatim>\<open>list\<close> or a \<^verbatim>\<open>dict\<close> with \<^verbatim>\<open>str\<close> keys. A dict keeps the order
  of insertion, so it is an association list; the lookup reads the first entry of
  a key and Python's dict never has a second one. The program formats a float, tests its
  type and writes it out, and does nothing else with it: a float is carried by its
  \<^verbatim>\<open>repr\<close>.
\<close>

datatype json =
    JNull
  | JBool bool
  | JInt int
  | JFloat string
  | JStr string
  | JList "json list"
  | JDict "(string \<times> json) list"

datatype py_error = KeyError | IndexError | TypeError | ValueError | AttributeError

subsection \<open>The string operations the program calls\<close>

fun startswith :: "string \<Rightarrow> string \<Rightarrow> bool" where
  "startswith s [] = True"
| "startswith [] (c # cs) = False"
| "startswith (x # xs) (c # cs) = (x = c \<and> startswith xs cs)"

text \<open>\<^verbatim>\<open>sub in s\<close> on two strings.\<close>

fun str_contains :: "string \<Rightarrow> string \<Rightarrow> bool" where
  "str_contains sub [] = (sub = [])"
| "str_contains sub (c # cs) = (startswith (c # cs) sub \<or> str_contains sub cs)"

text \<open>
  \<^verbatim>\<open>s.split(sep, 1)\<close> for a separator that is not empty: the text before the first
  occurrence of the separator, and the text after it when there is an occurrence.
  \<^verbatim>\<open>s.split(sep)[0]\<close> is the first component.
\<close>

fun split1 :: "string \<Rightarrow> string \<Rightarrow> string \<times> string option" where
  "split1 sep [] = ([], None)"
| "split1 sep (c # cs) =
     (if startswith (c # cs) sep then ([], Some (drop (length sep) (c # cs)))
      else (case split1 sep cs of (a, r) \<Rightarrow> (c # a, r)))"

definition sep :: string where
  "sep = '': ''"

definition isspace :: "char \<Rightarrow> bool" where
  "isspace c = (of_char c \<in> {9, 10, 11, 12, 13, 28, 29, 30, 31, 32, 133, 160 :: nat})"

definition strip :: "string \<Rightarrow> string" where
  "strip s = rev (dropWhile isspace (rev (dropWhile isspace s)))"

definition ascii_digit :: "char \<Rightarrow> bool" where
  "ascii_digit c = (48 \<le> (of_char c :: nat) \<and> (of_char c :: nat) \<le> 57)"

text \<open>
  \<^verbatim>\<open>str.isdigit\<close>: below 256 the digits are \<^verbatim>\<open>0\<close> to \<^verbatim>\<open>9\<close> and the superscripts
  one, two and three.
\<close>

definition digit_char :: "char \<Rightarrow> bool" where
  "digit_char c = (ascii_digit c \<or> of_char c \<in> {178, 179, 185 :: nat})"

definition isdigit :: "string \<Rightarrow> bool" where
  "isdigit s = (s \<noteq> [] \<and> list_all digit_char s)"

text \<open>
  \<^verbatim>\<open>int(s)\<close> on a string, \<^verbatim>\<open>None\<close> where Python raises \<^verbatim>\<open>ValueError\<close>: white space
  around, a sign, then decimal digits with single underscores between them. A white
  space character from 127 on counts as a blank; of the ASCII characters only tab, line
  feed, vertical tab, form feed, carriage return and the blank are skipped. (The limit
  on the number of digits that recent interpreters set is not modelled.)
\<close>

fun digit_run :: "string \<Rightarrow> bool" where
  "digit_run [] = False"
| "digit_run [c] = ascii_digit c"
| "digit_run (c # d # r) =
     (ascii_digit c \<and> (if d = CHR ''_'' then digit_run r else digit_run (d # r)))"

definition decimal :: "string \<Rightarrow> nat" where
  "decimal ds = foldl (\<lambda>n c. 10 * n + (of_char c - 48)) 0 ds"

definition c_space :: "char \<Rightarrow> bool" where
  "c_space c = (of_char c \<in> {9, 10, 11, 12, 13, 32 :: nat})"

definition py_int :: "string \<Rightarrow> int option" where
  "py_int s =
     (let t = map (\<lambda>c. if 127 \<le> (of_char c :: nat) \<and> isspace c then CHR '' '' else c) s;
          u = rev (dropWhile c_space (rev (dropWhile c_space t)));
          neg = (u \<noteq> [] \<and> hd u = CHR ''-'');
          body = (if u \<noteq> [] \<and> (hd u = CHR ''-'' \<or> hd u = CHR ''+'') then tl u else u)
      in if digit_run body
         then Some ((if neg then - 1 else 1) * int (decimal (filter (\<lambda>c. c \<noteq> CHR ''_'') body)))
         else None)"

text \<open>\<^verbatim>\<open>str(n)\<close> for an \<^verbatim>\<open>int\<close>.\<close>

fun nat_str :: "nat \<Rightarrow> string" where
  "nat_str n = (if n < 10 then [char_of (48 + n)] else nat_str (n div 10) @ [char_of (48 + n mod 10)])"

declare nat_str.simps [simp del]

definition int_str :: "int \<Rightarrow> string" where
  "int_str i = (if i < 0 then CHR ''-'' # nat_str (nat (- i)) else nat_str (nat i))"

text \<open>
  \<^verbatim>\<open>repr(s)\<close> for a \<^verbatim>\<open>str\<close>: single quotes, unless the text has a single quote and no
  double quote; a backslash before the quote and the backslash; \<^verbatim>\<open>\t\<close>, \<^verbatim>\<open>\n\<close>,
  \<^verbatim>\<open>\r\<close>; \<^verbatim>\<open>\xNN\<close> for the other characters that are not printable.
\<close>

definition hex_digit :: "nat \<Rightarrow> char" where
  "hex_digit n = (if n < 10 then char_of (48 + n) else char_of (87 + n))"

definition printable :: "char \<Rightarrow> bool" where
  "printable c = (let n = (of_char c :: nat) in (32 \<le> n \<and> n < 127) \<or> (161 \<le> n \<and> n \<noteq> 173))"

definition repr_char :: "char \<Rightarrow> char \<Rightarrow> string" where
  "repr_char q c =
     (if c = q \<or> c = CHR 0x5C then [CHR 0x5C, c]
      else if c = CHR 0x09 then [CHR 0x5C, CHR ''t'']
      else if c = CHR 0x0A then [CHR 0x5C, CHR ''n'']
      else if c = CHR 0x0D then [CHR 0x5C, CHR ''r'']
      else if printable c then [c]
      else [CHR 0x5C, CHR ''x'', hex_digit (of_char c div 16), hex_digit (of_char c mod 16)])"

definition repr_str :: "string \<Rightarrow> string" where
  "repr_str s =
     (let q = (if CHR 0x27 \<in> set s \<and> CHR 0x22 \<notin> set s then CHR 0x22 else CHR 0x27)
      in [q] @ concat (map (repr_char q) s) @ [q])"

text \<open>\<^verbatim>\<open>'', ''.join(xs)\<close>.\<close>

fun join :: "string \<Rightarrow> string list \<Rightarrow> string" where
  "join s [] = []"
| "join s [x] = x"
| "join s (x # y # ys) = x @ s @ join s (y # ys)"

text \<open>\<^verbatim>\<open>repr(v)\<close> and \<^verbatim>\<open>str(v)\<close>, as an f-string formats a value.\<close>

fun py_repr :: "json \<Rightarrow> string" where
  "py_repr JNull = ''None''"
| "py_repr (JBool b) = (if b then ''True'' else ''False'')"
| "py_repr (JInt i) = int_str i"
| "py_repr (JFloat r) = r"
| "py_repr (JStr s) = repr_str s"
| "py_repr (JList xs) = ''['' @ join '', '' (map py_repr xs) @ '']''"
| "py_repr (JDict kvs) =
     ''{'' @ join '', '' (map (\<lambda>kv. repr_str (fst kv) @ '': '' @ py_repr (snd kv)) kvs) @ ''}''"

definition py_str :: "json \<Rightarrow> string" where
  "py_str v = (case v of JStr s \<Rightarrow> s | _ \<Rightarrow> py_repr v)"

subsection \<open>Reading a container\<close>

text \<open>\<^verbatim>\<open>key in model\<close> for a \<^verbatim>\<open>str\<close> key: a key of a dict, an element of a list, a part
  of a string; \<^verbatim>\<open>TypeError\<close> on a value that is not iterable.\<close>

fun contains :: "json \<Rightarrow> string \<Rightarrow> py_error + bool" where
  "contains (JDict kvs) k = Inr (k \<in> set (map fst kvs))"
| "contains (JList xs) k = Inr (JStr k \<in> set xs)"
| "contains (JStr s) k = Inr (str_contains k s)"
| "contains _ k = Inl TypeError"

text \<open>\<^verbatim>\<open>model[key]\<close> for a \<^verbatim>\<open>str\<close> key.\<close>

fun getitem_str :: "json \<Rightarrow> string \<Rightarrow> py_error + json" where
  "getitem_str (JDict kvs) k = (case map_of kvs k of Some v \<Rightarrow> Inr v | None \<Rightarrow> Inl KeyError)"
| "getitem_str _ k = Inl TypeError"

text \<open>\<^verbatim>\<open>model[i]\<close> for an \<^verbatim>\<open>int\<close> that is not negative. A dict of a document has
  \<^verbatim>\<open>str\<close> keys only, so it has no such key.\<close>

fun getitem_int :: "json \<Rightarrow> nat \<Rightarrow> py_error + json" where
  "getitem_int (JList xs) i = (if i < length xs then Inr (xs ! i) else Inl IndexError)"
| "getitem_int (JStr s) i = (if i < length s then Inr (JStr [s ! i]) else Inl IndexError)"
| "getitem_int (JDict kvs) i = Inl KeyError"
| "getitem_int _ i = Inl TypeError"

text \<open>\<^verbatim>\<open>d.get(key, default)\<close>: only a dict has the method.\<close>

fun dict_get :: "json \<Rightarrow> string \<Rightarrow> json \<Rightarrow> py_error + json" where
  "dict_get (JDict kvs) k dflt = Inr (case map_of kvs k of Some v \<Rightarrow> v | None \<Rightarrow> dflt)"
| "dict_get _ k dflt = Inl AttributeError"

text \<open>\<^verbatim>\<open>for item in items\<close>: the elements of a list, the keys of a dict, the characters of
  a string.\<close>

fun py_iter :: "json \<Rightarrow> py_error + json list" where
  "py_iter (JList xs) = Inr xs"
| "py_iter (JDict kvs) = Inr (map (\<lambda>kv. JStr (fst kv)) kvs)"
| "py_iter (JStr s) = Inr (map (\<lambda>c. JStr [c]) s)"
| "py_iter _ = Inl TypeError"

text \<open>\<^verbatim>\<open>isinstance(v, int)\<close>: \<^verbatim>\<open>bool\<close> is a subclass of \<^verbatim>\<open>int\<close>.\<close>

fun isinstance_int :: "json \<Rightarrow> bool" where
  "isinstance_int (JInt i) = True"
| "isinstance_int (JBool b) = True"
| "isinstance_int _ = False"

subsection \<open>Locations in the document\<close>

text \<open>
  \<^verbatim>\<open>update_model_value\<close> holds a reference into the document in its variable
  \<^verbatim>\<open>model\<close> and assigns through it. The document that \<^verbatim>\<open>json.load\<close> builds is a
  tree without sharing, so a reference is the way to the object from the root: a list of
  keys and indices. \<open>at\<close> reads a location and \<open>put\<close> replaces the object at it.
\<close>

datatype seg = Key string | Idx nat

fun child :: "json \<Rightarrow> seg \<Rightarrow> json option" where
  "child (JDict kvs) (Key k) = map_of kvs k"
| "child (JList xs) (Idx i) = (if i < length xs then Some (xs ! i) else None)"
| "child _ _ = None"

fun set_child :: "json \<Rightarrow> seg \<Rightarrow> json \<Rightarrow> json" where
  "set_child (JDict kvs) (Key k) v = JDict (AList.update k v kvs)"
| "set_child (JList xs) (Idx i) v = JList (xs[i := v])"
| "set_child d _ v = d"

fun at :: "json \<Rightarrow> seg list \<Rightarrow> json option" where
  "at d [] = Some d"
| "at d (s # ss) = (case child d s of None \<Rightarrow> None | Some c \<Rightarrow> at c ss)"

fun put :: "json \<Rightarrow> seg list \<Rightarrow> json \<Rightarrow> json" where
  "put d [] v = v"
| "put d (s # ss) v = (case child d s of None \<Rightarrow> d | Some c \<Rightarrow> set_child d s (put c ss v))"

subsection \<open>The tree of items\<close>

text \<open>
  A \<^verbatim>\<open>QTreeWidgetItem\<close> with its column-0 text and its children. The widget has the one
  top-level item that \<^verbatim>\<open>load_tree\<close> creates; an item is referred to by its position, the
  child indices on the way from the top-level item, whose \<^verbatim>\<open>parent()\<close> is \<^verbatim>\<open>None\<close>.
\<close>

datatype node = Node (label: string) (children: "node list")

fun item_at :: "node \<Rightarrow> nat list \<Rightarrow> node option" where
  "item_at n [] = Some n"
| "item_at n (i # is) = (if i < length (children n) then item_at (children n ! i) is else None)"

definition item_text :: "node \<Rightarrow> nat list \<Rightarrow> string" where
  "item_text t pos = (case item_at t pos of Some n \<Rightarrow> label n | None \<Rightarrow> [])"

fun set_text :: "node \<Rightarrow> nat list \<Rightarrow> string \<Rightarrow> node" where
  "set_text (Node l cs) [] s = Node s cs"
| "set_text (Node l cs) (i # is) s =
     (if i < length cs then Node l (cs[i := set_text (cs ! i) is s]) else Node l cs)"

text \<open>
  \<^verbatim>\<open>add_sublevel\<close>. \<^verbatim>\<open>item.get\<close> needs a dict, and the constructor of an item takes
  strings only: a name that is not a string is a \<^verbatim>\<open>TypeError\<close>.
\<close>

definition leaf :: "string \<times> json \<Rightarrow> node" where
  "leaf kv = Node (fst kv @ '': '' @ py_str (snd kv)) []"

fun item_node :: "json \<Rightarrow> py_error + node" where
  "item_node (JDict kvs) =
     (case map_of kvs ''name'' of
        None \<Rightarrow> Inr (Node ''Unnamed'' (map leaf kvs))
      | Some (JStr s) \<Rightarrow> Inr (Node s (map leaf kvs))
      | Some _ \<Rightarrow> Inl TypeError)"
| "item_node _ = Inl AttributeError"

fun item_nodes :: "json list \<Rightarrow> py_error + node list" where
  "item_nodes [] = Inr []"
| "item_nodes (item # items) =
     (case item_node item of
        Inl e \<Rightarrow> Inl e
      | Inr n \<Rightarrow> (case item_nodes items of Inl e \<Rightarrow> Inl e | Inr ns \<Rightarrow> Inr (n # ns)))"

definition add_sublevel :: "string \<Rightarrow> json \<Rightarrow> py_error + node" where
  "add_sublevel key items =
     (case py_iter items of
        Inl e \<Rightarrow> Inl e
      | Inr xs \<Rightarrow> (case item_nodes xs of Inl e \<Rightarrow> Inl e | Inr ns \<Rightarrow> Inr (Node key ns)))"

text \<open>
  \<^verbatim>\<open>load_tree\<close>: the two leaves read the root of the document, the six groups read
  \<^verbatim>\<open>bim_data.get("model", {}).get(key, [])\<close>.
\<close>

definition collections :: "string list" where
  "collections =
     [''dataSources'', ''tables'', ''relationships'', ''perspectives'', ''annotations'',
      ''translations'']"

definition sublevel :: "json \<Rightarrow> string \<Rightarrow> py_error + node" where
  "sublevel bim_data key =
     (case dict_get bim_data ''model'' (JDict []) of
        Inl e \<Rightarrow> Inl e
      | Inr m \<Rightarrow> (case dict_get m key (JList []) of
                    Inl e \<Rightarrow> Inl e
                  | Inr items \<Rightarrow> add_sublevel key items))"

fun sublevels :: "json \<Rightarrow> string list \<Rightarrow> py_error + node list" where
  "sublevels bim_data [] = Inr []"
| "sublevels bim_data (key # keys) =
     (case sublevel bim_data key of
        Inl e \<Rightarrow> Inl e
      | Inr n \<Rightarrow> (case sublevels bim_data keys of Inl e \<Rightarrow> Inl e | Inr ns \<Rightarrow> Inr (n # ns)))"

definition load_tree :: "json \<Rightarrow> py_error + node" where
  "load_tree bim_data =
     (case dict_get bim_data ''name'' (JStr []) of
        Inl e \<Rightarrow> Inl e
      | Inr nm \<Rightarrow>
     (case dict_get bim_data ''compatibilityLevel'' (JStr []) of
        Inl e \<Rightarrow> Inl e
      | Inr cl \<Rightarrow>
     (case sublevels bim_data collections of
        Inl e \<Rightarrow> Inl e
      | Inr groups \<Rightarrow>
          Inr (Node ''Model''
                 (leaf (''name'', nm) # leaf (''compatibilityLevel'', cl) # groups)))))"

subsection \<open>The window and the selection\<close>

text \<open>
  The attributes of the window that the handlers read and write. \<open>editor\<close> is the
  line edit of the detail form with its first content, \<open>None\<close> when the form is empty;
  \<^verbatim>\<open>editingFinished\<close> of that line edit is what calls \<^verbatim>\<open>update_model_value\<close>.
\<close>

record window =
  bim_data :: json
  file_path :: string
  tree :: node
  editor :: "string option"
  current_key :: string
  current_item :: "nat list"
  current_path :: "string list"

text \<open>
  \<^verbatim>\<open>get_json_path\<close>: from the item up to the top-level item, which is left out, the
  text of each item before its first \<^verbatim>\<open>": "\<close> is put in front of the path.
\<close>

function path_loop :: "node \<Rightarrow> nat list \<Rightarrow> string list \<Rightarrow> string list" where
  "path_loop t item path =
     (if item \<noteq> [] then path_loop t (butlast item) (fst (split1 sep (item_text t item)) # path)
      else path)"
  by pat_completeness auto
termination
  by (relation "measure (\<lambda>(t, item, path). length item)") auto

declare path_loop.simps [simp del]

definition get_json_path :: "node \<Rightarrow> nat list \<Rightarrow> string list" where
  "get_json_path t item = path_loop t item []"

definition on_tree_item_click :: "window \<Rightarrow> nat list \<Rightarrow> window" where
  "on_tree_item_click w item =
     (let txt = item_text (tree w) item in
      if str_contains sep txt then
        (case split1 sep txt of
           (key, val) \<Rightarrow>
             w\<lparr>current_key := strip key,
               current_item := item,
               current_path := get_json_path (tree w) item,
               editor := Some (strip (case val of Some v \<Rightarrow> v | None \<Rightarrow> []))\<rparr>)
      else w\<lparr>editor := None\<rparr>)"

subsection \<open>The commit\<close>

text \<open>
  The loop of \<^verbatim>\<open>update_model_value\<close> over \<^verbatim>\<open>current_path[:-1]\<close>. \<open>model\<close> is the
  object the variable holds and \<open>loc\<close> is where that object is, counted from
  \<^verbatim>\<open>bim_data["model"]\<close>. The loop ends at an object, at the error message (the
  \<^verbatim>\<open>else\<close> branch, which returns), or with an exception that nothing catches.
\<close>

datatype trav = Reached json "seg list" | Unable | Raised py_error

fun traverse :: "json \<Rightarrow> seg list \<Rightarrow> string list \<Rightarrow> trav" where
  "traverse model loc [] = Reached model loc"
| "traverse model loc (key # keys) =
     (if isdigit key then
        (case py_int key of
           None \<Rightarrow> Raised ValueError
         | Some i \<Rightarrow>
             (case getitem_int model (nat i) of
                Inl e \<Rightarrow> Raised e
              | Inr m \<Rightarrow> traverse m (loc @ [Idx (nat i)]) keys))
      else
        (case contains model key of
           Inl e \<Rightarrow> Raised e
         | Inr True \<Rightarrow>
             (case getitem_str model key of
                Inl e \<Rightarrow> Raised e
              | Inr m \<Rightarrow> traverse m (loc @ [Key key]) keys)
         | Inr False \<Rightarrow> Unable))"

text \<open>
  The value that the \<^verbatim>\<open>try\<close> block stores: \<^verbatim>\<open>int(value)\<close> when the old value is an
  \<^verbatim>\<open>int\<close> and the text parses, the text itself otherwise.
\<close>

definition new_value :: "json \<Rightarrow> string \<Rightarrow> json" where
  "new_value old val =
     (if isinstance_int old then (case py_int val of Some n \<Rightarrow> JInt n | None \<Rightarrow> JStr val)
      else JStr val)"

text \<open>\<^verbatim>\<open>model[last_key] = v\<close>.\<close>

fun setitem :: "json \<Rightarrow> string \<Rightarrow> json \<Rightarrow> py_error + json" where
  "setitem (JDict kvs) k v = Inr (JDict (AList.update k v kvs))"
| "setitem _ k v = Inl TypeError"

definition unable_message :: "string list \<Rightarrow> string" where
  "unable_message path =
     ''Unable to update the path: '' @ ''['' @ join '', '' (map repr_str path) @ '']''"

text \<open>
  How a call of \<^verbatim>\<open>update_model_value\<close> ends: it returns after the last statement
  (\<open>Updated\<close>), it returns from the loop after the error message (\<open>Error_box\<close>, with
  the text of the message), or it raises.
\<close>

datatype outcome = Updated window | Error_box string window | Uncaught py_error

definition update_model_value :: "window \<Rightarrow> string \<Rightarrow> outcome" where
  "update_model_value w val =
     (case getitem_str (bim_data w) ''model'' of
        Inl e \<Rightarrow> Uncaught e
      | Inr m \<Rightarrow>
     (case traverse m [] (butlast (current_path w)) of
        Raised e \<Rightarrow> Uncaught e
      | Unable \<Rightarrow> Error_box (unable_message (current_path w)) w
      | Reached model loc \<Rightarrow>
          if current_path w = [] then Uncaught IndexError
          else
            let last_key = last (current_path w);
                shown = set_text (tree w) (current_item w) (current_key w @ '': '' @ val)
            in
            (case contains model last_key of
               Inl e \<Rightarrow> Uncaught e
             | Inr False \<Rightarrow> Updated (w\<lparr>tree := shown\<rparr>)
             | Inr True \<Rightarrow>
                 (case getitem_str model last_key of
                    Inl e \<Rightarrow> Uncaught e
                  | Inr old \<Rightarrow>
                      (case setitem model last_key (new_value old val) of
                         Inl e \<Rightarrow> Uncaught e
                       | Inr model' \<Rightarrow>
                           Updated (w\<lparr>bim_data := put (bim_data w) (Key ''model'' # loc) model',
                                      tree := shown\<rparr>))))))"

text \<open>
  The lookup that \<^verbatim>\<open>update_model_value\<close> performs for a path, segment by segment: the
  loop over all segments but the last from \<^verbatim>\<open>bim_data["model"]\<close>, then the test
  \<^verbatim>\<open>last_key in model\<close> and the read \<^verbatim>\<open>model[last_key]\<close>. It gives the location of the
  value in the document and the value, and \<open>None\<close> when the lookup does not get to a
  value.
\<close>

definition locate :: "json \<Rightarrow> string list \<Rightarrow> (seg list \<times> json) option" where
  "locate d path =
     (case getitem_str d ''model'' of
        Inl e \<Rightarrow> None
      | Inr m \<Rightarrow>
     (case traverse m [] (butlast path) of
        Reached model loc \<Rightarrow>
          if path \<noteq> [] \<and> contains model (last path) = Inr True then
            (case getitem_str model (last path) of
               Inl e \<Rightarrow> None
             | Inr v \<Rightarrow> Some (Key ''model'' # loc @ [Key (last path)], v))
          else None
      | _ \<Rightarrow> None))"

subsection \<open>Loading\<close>

text \<open>
  \<^verbatim>\<open>load_bim_file\<close> once \<^verbatim>\<open>json.load\<close> has returned \<open>data\<close>: the window of a
  document whose tree was built. An exception of \<^verbatim>\<open>load_tree\<close> is caught there and
  closes the window. The three \<^verbatim>\<open>current_\<close> attributes do not exist before the first
  selection, and nothing reads them before it.
\<close>

definition load_bim_file :: "string \<Rightarrow> json \<Rightarrow> py_error + window" where
  "load_bim_file selected_file data =
     (case load_tree data of
        Inl e \<Rightarrow> Inl e
      | Inr t \<Rightarrow>
          Inr \<lparr>bim_data = data, file_path = selected_file, tree = t, editor = None,
               current_key = [], current_item = [], current_path = []\<rparr>)"

subsection \<open>Saving\<close>

text \<open>
  \<^verbatim>\<open>json.dump(self.bim_data, file, indent=4)\<close>: the text that the encoder of the standard
  library writes, with its defaults (\<^verbatim>\<open>ensure_ascii\<close>, the separators \<^verbatim>\<open>","\<close> and
  \<^verbatim>\<open>": "\<close>). In a quoted string a backslash stands before the
  double quote and the backslash, the letters \<^verbatim>\<open>n\<close>, \<^verbatim>\<open>r\<close>, \<^verbatim>\<open>t\<close>, \<^verbatim>\<open>b\<close>, \<^verbatim>\<open>f\<close>
  after a backslash stand for line feed, carriage return, tab, backspace and form feed,
  and \<^verbatim>\<open>u00XX\<close> after a backslash for every other character outside the range from the
  blank to the tilde. A container that is not empty has one element on
  each line, four blanks deeper than its brackets.
\<close>

definition hex4 :: "nat \<Rightarrow> string" where
  "hex4 n =
     [hex_digit (n div 4096 mod 16), hex_digit (n div 256 mod 16), hex_digit (n div 16 mod 16),
      hex_digit (n mod 16)]"

definition escape_char :: "char \<Rightarrow> string" where
  "escape_char c =
     (if c = CHR 0x22 then [CHR 0x5C, CHR 0x22]
      else if c = CHR 0x5C then [CHR 0x5C, CHR 0x5C]
      else if c = CHR 0x0A then [CHR 0x5C, CHR ''n'']
      else if c = CHR 0x0D then [CHR 0x5C, CHR ''r'']
      else if c = CHR 0x09 then [CHR 0x5C, CHR ''t'']
      else if c = CHR 0x08 then [CHR 0x5C, CHR ''b'']
      else if c = CHR 0x0C then [CHR 0x5C, CHR ''f'']
      else if 32 \<le> (of_char c :: nat) \<and> (of_char c :: nat) \<le> 126 then [c]
      else [CHR 0x5C, CHR ''u''] @ hex4 (of_char c))"

definition encode_str :: "string \<Rightarrow> string" where
  "encode_str s = [CHR 0x22] @ concat (map escape_char s) @ [CHR 0x22]"

definition encode_float :: "string \<Rightarrow> string" where
  "encode_float r =
     (if r = ''nan'' then ''NaN'' else if r = ''inf'' then ''Infinity''
      else if r = ''-inf'' then ''-Infinity'' else r)"

definition newline_indent :: "nat \<Rightarrow> string" where
  "newline_indent level = CHR 0x0A # replicate (4 * level) (CHR '' '')"

fun encode :: "nat \<Rightarrow> json \<Rightarrow> string" where
  "encode level JNull = ''null''"
| "encode level (JBool b) = (if b then ''true'' else ''false'')"
| "encode level (JInt i) = int_str i"
| "encode level (JFloat r) = encode_float r"
| "encode level (JStr s) = encode_str s"
| "encode level (JList xs) =
     (if xs = [] then ''[]''
      else ''['' @ newline_indent (Suc level)
           @ join ('','' @ newline_indent (Suc level)) (map (encode (Suc level)) xs)
           @ newline_indent level @ '']'')"
| "encode level (JDict kvs) =
     (if kvs = [] then ''{}''
      else ''{'' @ newline_indent (Suc level)
           @ join ('','' @ newline_indent (Suc level))
               (map (\<lambda>kv. encode_str (fst kv) @ '': '' @ encode (Suc level) (snd kv)) kvs)
           @ newline_indent level @ ''}'')"

definition json_dumps :: "json \<Rightarrow> string" where
  "json_dumps d = encode 0 d"

text \<open>
  \<^verbatim>\<open>save_bim_file\<close>. What \<^verbatim>\<open>open\<close> and \<^verbatim>\<open>json.dump\<close> do to the file is the
  environment's: the write goes through, or it raises and leaves some text in the file
  (the old text when \<^verbatim>\<open>open\<close> fails, a part of the new one when the write fails). The
  function takes the text of the file and gives the new text and the dialog it shows; it
  assigns to no attribute of the window.
\<close>

datatype write_result = Write_ok | Write_fails string string

datatype dialog = Information string string | Critical string string

definition basename :: "string \<Rightarrow> string" where
  "basename p = rev (takeWhile (\<lambda>c. c \<noteq> CHR ''/'') (rev p))"

definition save_bim_file :: "window \<Rightarrow> string \<Rightarrow> write_result \<Rightarrow> string \<times> dialog" where
  "save_bim_file w file wr =
     (if file_path w \<noteq> [] then
        (case wr of
           Write_ok \<Rightarrow>
             (json_dumps (bim_data w),
              Information ''File Saved'' (basename (file_path w) @ '' saved successfully.''))
         | Write_fails left e \<Rightarrow> (left, Critical ''Error'' (''Failed to save file: '' @ e)))
      else (file, Critical ''Error'' ''No file path specified for saving.''))"

subsection \<open>The session\<close>

text \<open>
  The signals that \<^verbatim>\<open>__init__\<close> and \<^verbatim>\<open>on_tree_item_click\<close> connect: a click on an
  item, \<^verbatim>\<open>editingFinished\<close> of the line edit with its text, and the save action with
  what the environment does to the write. A session is the window, the text of the file
  and the dialogs shown so far; an exception that a handler does not catch ends it.
\<close>

datatype event = Item_clicked "nat list" | Editing_finished string | Save_triggered write_result

type_synonym session = "window \<times> string \<times> dialog list"

fun handle :: "event \<Rightarrow> session \<Rightarrow> py_error + session" where
  "handle (Item_clicked item) (w, file, shown) = Inr (on_tree_item_click w item, file, shown)"
| "handle (Editing_finished val) (w, file, shown) =
     (case editor w of
        None \<Rightarrow> Inr (w, file, shown)
      | Some _ \<Rightarrow>
          (case update_model_value w val of
             Updated w' \<Rightarrow> Inr (w', file, shown)
           | Error_box msg w' \<Rightarrow> Inr (w', file, shown @ [Critical ''Error'' msg])
           | Uncaught e \<Rightarrow> Inl e))"
| "handle (Save_triggered wr) (w, file, shown) =
     (case save_bim_file w file wr of (file', d) \<Rightarrow> Inr (w, file', shown @ [d]))"

fun run :: "event list \<Rightarrow> session \<Rightarrow> py_error + session" where
  "run [] s = Inr s"
| "run (ev # evs) s = (case handle ev s of Inl e \<Rightarrow> Inl e | Inr s' \<Rightarrow> run evs s')"

subsection \<open>Documents of the examples\<close>

text \<open>
  Each document has a \<^verbatim>\<open>name\<close>, a \<^verbatim>\<open>compatibilityLevel\<close> and a \<^verbatim>\<open>model\<close> with the six
  collections; each window is the one that \<^verbatim>\<open>load_bim_file\<close> makes of its document.

  A model with one table named \<^verbatim>\<open>Sales\<close>.
\<close>

definition sales_model :: json where
  "sales_model =
     JDict [(''culture'', JStr ''en-US''), (''dataSources'', JList []),
            (''tables'', JList [JDict [(''name'', JStr ''Sales''), (''isHidden'', JBool False)]]),
            (''relationships'', JList []), (''perspectives'', JList []),
            (''annotations'', JList []), (''translations'', JList [])]"

definition sales_doc :: json where
  "sales_doc =
     JDict [(''name'', JStr ''SemanticModel''), (''compatibilityLevel'', JInt 1200),
            (''model'', sales_model)]"

definition sales_window :: window where
  "sales_window =
     \<lparr>bim_data = sales_doc, file_path = ''model.bim'',
      tree = Node ''Model''
        [Node ''name: SemanticModel'' [], Node ''compatibilityLevel: 1200'' [],
         Node ''dataSources'' [],
         Node ''tables'' [Node ''Sales'' [Node ''name: Sales'' [], Node ''isHidden: False'' []]],
         Node ''relationships'' [], Node ''perspectives'' [], Node ''annotations'' [],
         Node ''translations'' []],
      editor = None, current_key = [], current_item = [], current_path = []\<rparr>"

text \<open>A model whose only table is named \<^verbatim>\<open>0\<close>, which is also its index, with a
  number of rows that the second document has changed to 7.\<close>

definition indexed_model :: "int \<Rightarrow> json" where
  "indexed_model rows =
     JDict [(''culture'', JStr ''en-US''), (''dataSources'', JList []),
            (''tables'', JList [JDict [(''name'', JStr ''0''), (''rows'', JInt rows),
                                       (''isHidden'', JBool True)]]),
            (''relationships'', JList []), (''perspectives'', JList []),
            (''annotations'', JList []), (''translations'', JList [])]"

definition indexed_doc :: json where
  "indexed_doc =
     JDict [(''name'', JStr ''SemanticModel''), (''compatibilityLevel'', JInt 1200),
            (''model'', indexed_model 42)]"

definition edited_doc :: json where
  "edited_doc =
     JDict [(''name'', JStr ''SemanticModel''), (''compatibilityLevel'', JInt 1200),
            (''model'', indexed_model 7)]"

definition indexed_window :: window where
  "indexed_window =
     \<lparr>bim_data = indexed_doc, file_path = ''model.bim'',
      tree = Node ''Model''
        [Node ''name: SemanticModel'' [], Node ''compatibilityLevel: 1200'' [],
         Node ''dataSources'' [],
         Node ''tables''
           [Node ''0'' [Node ''name: 0'' [], Node ''rows: 42'' [], Node ''isHidden: True'' []]],
         Node ''relationships'' [], Node ''perspectives'' [], Node ''annotations'' [],
         Node ''translations'' []],
      editor = None, current_key = [], current_item = [], current_path = []\<rparr>"

text \<open>A model whose table and relationship have numbers as names that are not their
  indices.\<close>

definition numbered_model :: json where
  "numbered_model =
     JDict [(''dataSources'', JList []),
            (''tables'', JList [JDict [(''name'', JStr ''5''), (''rows'', JInt 42)]]),
            (''relationships'',
             JList [JDict [(''name'', JStr ''1''), (''fromTable'', JStr ''5'')]]),
            (''perspectives'', JList []), (''annotations'', JList []),
            (''translations'', JList [])]"

definition numbered_doc :: json where
  "numbered_doc =
     JDict [(''name'', JStr ''SemanticModel''), (''compatibilityLevel'', JInt 1200),
            (''model'', numbered_model)]"

definition numbered_window :: window where
  "numbered_window =
     \<lparr>bim_data = numbered_doc, file_path = ''model.bim'',
      tree = Node ''Model''
        [Node ''name: SemanticModel'' [], Node ''compatibilityLevel: 1200'' [],
         Node ''dataSources'' [],
         Node ''tables'' [Node ''5'' [Node ''name: 5'' [], Node ''rows: 42'' []]],
         Node ''relationships'' [Node ''1'' [Node ''name: 1'' [], Node ''fromTable: 5'' []]],
         Node ''perspectives'' [], Node ''annotations'' [], Node ''translations'' []],
      editor = None, current_key = [], current_item = [], current_path = []\<rparr>"

text \<open>A document whose \<^verbatim>\<open>model\<close> has a \<^verbatim>\<open>name\<close> of its own, and the document with that
  name changed.\<close>

definition named_model :: "string \<Rightarrow> json" where
  "named_model nm =
     JDict [(''name'', JStr nm), (''dataSources'', JList []), (''tables'', JList []),
            (''relationships'', JList []), (''perspectives'', JList []),
            (''annotations'', JList []), (''translations'', JList [])]"

definition named_doc :: json where
  "named_doc =
     JDict [(''name'', JStr ''Outer''), (''compatibilityLevel'', JInt 1200),
            (''model'', named_model ''Inner'')]"

definition renamed_doc :: json where
  "renamed_doc =
     JDict [(''name'', JStr ''Outer''), (''compatibilityLevel'', JInt 1200),
            (''model'', named_model ''Renamed'')]"

definition named_window :: window where
  "named_window =
     \<lparr>bim_data = named_doc, file_path = ''model.bim'',
      tree = Node ''Model''
        [Node ''name: Outer'' [], Node ''compatibilityLevel: 1200'' [],
         Node ''dataSources'' [], Node ''tables'' [], Node ''relationships'' [],
         Node ''perspectives'' [], Node ''annotations'' [], Node ''translations'' []],
      editor = None, current_key = [], current_item = [], current_path = []\<rparr>"

subsection \<open>Parsing\<close>

text \<open>
  \<^verbatim>\<open>json.load(file)\<close>: the decoder of the standard library on the text of the file,
  with its defaults. The functions take the text that is left and give the value with the
  rest of the text; \<open>None\<close> is \<^verbatim>\<open>JSONDecodeError\<close> (or an escape of a code point from
  256 on, which the model of text does not have). White space is the blank, tab, line
  feed and carriage return.
\<close>

definition ws_char :: "char \<Rightarrow> bool" where
  "ws_char c = (c = CHR '' '' \<or> c = CHR 0x09 \<or> c = CHR 0x0A \<or> c = CHR 0x0D)"

definition skip_ws :: "string \<Rightarrow> string" where
  "skip_ws s = dropWhile ws_char s"

definition hex_value :: "char \<Rightarrow> nat option" where
  "hex_value c =
     (let n = (of_char c :: nat) in
      if 48 \<le> n \<and> n \<le> 57 then Some (n - 48)
      else if 97 \<le> n \<and> n \<le> 102 then Some (n - 87)
      else if 65 \<le> n \<and> n \<le> 70 then Some (n - 55)
      else None)"

definition hex4_value :: "char \<Rightarrow> char \<Rightarrow> char \<Rightarrow> char \<Rightarrow> nat option" where
  "hex4_value a b c d =
     (case hex_value a of None \<Rightarrow> None | Some x \<Rightarrow>
      case hex_value b of None \<Rightarrow> None | Some y \<Rightarrow>
      case hex_value c of None \<Rightarrow> None | Some z \<Rightarrow>
      case hex_value d of None \<Rightarrow> None | Some u \<Rightarrow> Some (((x * 16 + y) * 16 + z) * 16 + u))"

text \<open>The character that a letter after a backslash stands for.\<close>

definition unescape :: "char \<Rightarrow> char option" where
  "unescape e =
     (if e = CHR 0x22 then Some (CHR 0x22)
      else if e = CHR 0x5C then Some (CHR 0x5C)
      else if e = CHR ''/'' then Some (CHR ''/'')
      else if e = CHR ''b'' then Some (CHR 0x08)
      else if e = CHR ''f'' then Some (CHR 0x0C)
      else if e = CHR ''n'' then Some (CHR 0x0A)
      else if e = CHR ''r'' then Some (CHR 0x0D)
      else if e = CHR ''t'' then Some (CHR 0x09)
      else None)"

definition cons_result :: "char \<Rightarrow> (string \<times> string) option \<Rightarrow> (string \<times> string) option" where
  "cons_result c r = (case r of None \<Rightarrow> None | Some (s, rest) \<Rightarrow> Some (c # s, rest))"

text \<open>\<^verbatim>\<open>scanstring\<close>, from after the opening quote: up to the closing quote, with the
  escapes replaced; a control character in the string is an error.\<close>

fun scanstring :: "string \<Rightarrow> (string \<times> string) option" where
  "scanstring [] = None"
| "scanstring (c # r) =
     (if c = CHR 0x22 then Some ([], r)
      else if c = CHR 0x5C then
        (case r of
           [] \<Rightarrow> None
         | e # r1 \<Rightarrow>
             if e = CHR ''u'' then
               (case r1 of
                  a # b # x # d # r2 \<Rightarrow>
                    (case hex4_value a b x d of
                       None \<Rightarrow> None
                     | Some n \<Rightarrow> if n < 256 then cons_result (char_of n) (scanstring r2) else None)
                | _ \<Rightarrow> None)
             else
               (case unescape e of
                  None \<Rightarrow> None
                | Some x \<Rightarrow> cons_result x (scanstring r1)))
      else if (of_char c :: nat) < 32 then None
      else cons_result c (scanstring r))"

text \<open>
  A number: an optional minus, then \<^verbatim>\<open>0\<close> or a digit from 1 to 9 with the digits after
  it; a fraction is a dot with digits, an exponent is \<^verbatim>\<open>e\<close> or \<^verbatim>\<open>E\<close>, an optional
  sign and digits. Without fraction and exponent the text goes to \<^verbatim>\<open>int\<close>. With one of
  them it goes to \<^verbatim>\<open>float\<close>, which is the parameter \<open>pf\<close>: the \<^verbatim>\<open>repr\<close> of the float
  that the text denotes.
\<close>

definition match_integer :: "string \<Rightarrow> (string \<times> string) option" where
  "match_integer s =
     (let neg = (s \<noteq> [] \<and> hd s = CHR ''-'');
          r = (if neg then tl s else s);
          sign_text = (if neg then ''-'' else [])
      in case r of
           [] \<Rightarrow> None
         | c # r1 \<Rightarrow>
             if c = CHR ''0'' then Some (sign_text @ [c], r1)
             else if ascii_digit c then
               Some (sign_text @ c # takeWhile ascii_digit r1, dropWhile ascii_digit r1)
             else None)"

definition match_frac :: "string \<Rightarrow> string \<times> string" where
  "match_frac s =
     (case s of
        c # d # r \<Rightarrow>
          if c = CHR ''.'' \<and> ascii_digit d
          then (c # takeWhile ascii_digit (d # r), dropWhile ascii_digit (d # r))
          else ([], s)
      | _ \<Rightarrow> ([], s))"

definition match_exp :: "string \<Rightarrow> string \<times> string" where
  "match_exp s =
     (case s of
        [] \<Rightarrow> ([], s)
      | c # r \<Rightarrow>
          if c = CHR ''e'' \<or> c = CHR ''E'' then
            (let signed = (r \<noteq> [] \<and> (hd r = CHR ''+'' \<or> hd r = CHR ''-''));
                 r1 = (if signed then tl r else r)
             in if r1 \<noteq> [] \<and> ascii_digit (hd r1)
                then (c # (if signed then [hd r] else []) @ takeWhile ascii_digit r1,
                      dropWhile ascii_digit r1)
                else ([], s))
          else ([], s))"

definition match_number :: "(string \<Rightarrow> string) \<Rightarrow> string \<Rightarrow> (json \<times> string) option" where
  "match_number pf s =
     (case match_integer s of
        None \<Rightarrow> None
      | Some (integer, r1) \<Rightarrow>
          (case match_frac r1 of
             (frac, r2) \<Rightarrow>
               (case match_exp r2 of
                  (ex, r3) \<Rightarrow>
                    if frac = [] \<and> ex = [] then
                      (case py_int integer of None \<Rightarrow> None | Some i \<Rightarrow> Some (JInt i, r3))
                    else Some (JFloat (pf (integer @ frac @ ex)), r3))))"

text \<open>The constants and numbers of \<^verbatim>\<open>scan_once\<close>, in its order.\<close>

definition scan_plain :: "(string \<Rightarrow> string) \<Rightarrow> string \<Rightarrow> (json \<times> string) option" where
  "scan_plain pf s =
     (if startswith s ''null'' then Some (JNull, drop 4 s)
      else if startswith s ''true'' then Some (JBool True, drop 4 s)
      else if startswith s ''false'' then Some (JBool False, drop 5 s)
      else (case match_number pf s of
              Some r \<Rightarrow> Some r
            | None \<Rightarrow>
                if startswith s ''NaN'' then Some (JFloat ''nan'', drop 3 s)
                else if startswith s ''Infinity'' then Some (JFloat ''inf'', drop 8 s)
                else if startswith s ''-Infinity'' then Some (JFloat ''-inf'', drop 9 s)
                else None))"

text \<open>\<^verbatim>\<open>dict(pairs)\<close>: a later pair of a key replaces the value of the earlier one.\<close>

definition dict_of_pairs :: "(string \<times> json) list \<Rightarrow> (string \<times> json) list" where
  "dict_of_pairs pairs = foldl (\<lambda>d kv. AList.update (fst kv) (snd kv) d) [] pairs"

text \<open>
  \<^verbatim>\<open>scan_once\<close> with the loops of \<^verbatim>\<open>JSONArray\<close> and \<^verbatim>\<open>JSONObject\<close>. The first
  argument bounds the number of nested calls, one for each call; \<open>json_loads\<close> gives more
  than the text has characters, which is enough for every text (\<open>json_loads_bound\<close>). \<open>array_loop\<close> starts at a value, \<open>object_loop\<close> after the
  opening quote of a key.
\<close>

fun scan_once :: "(string \<Rightarrow> string) \<Rightarrow> nat \<Rightarrow> string \<Rightarrow> (json \<times> string) option"
  and array_loop :: "(string \<Rightarrow> string) \<Rightarrow> nat \<Rightarrow> string \<Rightarrow> (json list \<times> string) option"
  and object_loop ::
    "(string \<Rightarrow> string) \<Rightarrow> nat \<Rightarrow> string \<Rightarrow> ((string \<times> json) list \<times> string) option"
where
  "scan_once pf 0 s = None"
| "scan_once pf (Suc n) s =
     (case s of
        [] \<Rightarrow> None
      | c # r \<Rightarrow>
          if c = CHR 0x22 then
            (case scanstring r of None \<Rightarrow> None | Some (x, rest) \<Rightarrow> Some (JStr x, rest))
          else if c = CHR ''{'' then
            (case skip_ws r of
               [] \<Rightarrow> None
             | d # r1 \<Rightarrow>
                 if d = CHR ''}'' then Some (JDict [], r1)
                 else if d = CHR 0x22 then
                   (case object_loop pf n r1 of
                      None \<Rightarrow> None
                    | Some (pairs, rest) \<Rightarrow> Some (JDict (dict_of_pairs pairs), rest))
                 else None)
          else if c = CHR ''['' then
            (case skip_ws r of
               [] \<Rightarrow> None
             | d # r1 \<Rightarrow>
                 if d = CHR '']'' then Some (JList [], r1)
                 else
                   (case array_loop pf n (d # r1) of
                      None \<Rightarrow> None
                    | Some (values, rest) \<Rightarrow> Some (JList values, rest)))
          else scan_plain pf s)"
| "array_loop pf 0 s = None"
| "array_loop pf (Suc n) s =
     (case scan_once pf n s of
        None \<Rightarrow> None
      | Some (v, r) \<Rightarrow>
          (case skip_ws r of
             [] \<Rightarrow> None
           | c # r1 \<Rightarrow>
               if c = CHR '']'' then Some ([v], r1)
               else if c = CHR '','' then
                 (case array_loop pf n (skip_ws r1) of
                    None \<Rightarrow> None
                  | Some (vs, rest) \<Rightarrow> Some (v # vs, rest))
               else None))"
| "object_loop pf 0 s = None"
| "object_loop pf (Suc n) s =
     (case scanstring s of
        None \<Rightarrow> None
      | Some (key, r) \<Rightarrow>
          (case skip_ws r of
             [] \<Rightarrow> None
           | c # r1 \<Rightarrow>
               if c \<noteq> CHR '':'' then None
               else
                 (case scan_once pf n (skip_ws r1) of
                    None \<Rightarrow> None
                  | Some (v, r2) \<Rightarrow>
                      (case skip_ws r2 of
                         [] \<Rightarrow> None
                       | d # r3 \<Rightarrow>
                           if d = CHR ''}'' then Some ([(key, v)], r3)
                           else if d = CHR '','' then
                             (case skip_ws r3 of
                                [] \<Rightarrow> None
                              | q # r4 \<Rightarrow>
                                  if q \<noteq> CHR 0x22 then None
                                  else
                                    (case object_loop pf n r4 of
                                       None \<Rightarrow> None
                                     | Some (pairs, rest) \<Rightarrow> Some ((key, v) # pairs, rest)))
                           else None))))"

text \<open>\<^verbatim>\<open>decode\<close>: white space, one value, white space, and nothing after it.\<close>

definition json_loads :: "(string \<Rightarrow> string) \<Rightarrow> string \<Rightarrow> json option" where
  "json_loads pf s =
     (case scan_once pf (Suc (length s)) (skip_ws s) of
        None \<Rightarrow> None
      | Some (v, rest) \<Rightarrow> if skip_ws rest = [] then Some v else None)"

subsection \<open>Documents\<close>

text \<open>
  A Document as the specification has it: nested mappings, sequences and scalars, a
  scalar being a string, an integer, a boolean or null, and the keys of a mapping unique
  (those of a dict are). A float is not among these scalars.
\<close>

fun document :: "json \<Rightarrow> bool" where
  "document (JFloat r) = False"
| "document (JList xs) = list_all document xs"
| "document (JDict kvs) = (distinct (map fst kvs) \<and> list_all (\<lambda>kv. document (snd kv)) kvs)"
| "document _ = True"

text \<open>A document with an empty list and an empty dict, a negative number, and a string
  with a line feed, a quote, a backslash and a character from 128 on.\<close>

definition mixed_doc :: json where
  "mixed_doc =
     JDict [(''name'', JStr [CHR ''a'', CHR 0x0A, CHR 0x22, CHR 0x5C, CHR 0xE9]),
            (''compatibilityLevel'', JInt (- 1200)),
            (''model'', JDict [(''tables'', JList [JDict [], JList [], JNull, JBool False]),
                               (''annotations'', JList [JInt 0, JStr []])])]"

subsection \<open>Notions of the proofs\<close>

text \<open>The characters of the decimal text of an integer; what may follow a value in the
  text that the encoder writes; the first character of an encoded value.\<close>

definition int_char :: "char \<Rightarrow> bool" where
  "int_char c = (ascii_digit c \<or> c = CHR ''-'')"

definition delimited :: "string \<Rightarrow> bool" where
  "delimited rest = (rest = [] \<or> hd rest = CHR '','' \<or> hd rest = CHR 0x0A)"

definition opener :: "char \<Rightarrow> bool" where
  "opener c = (int_char c \<or> c = CHR ''n'' \<or> c = CHR ''t'' \<or> c = CHR ''f'' \<or> c = CHR 0x22
               \<or> c = CHR ''['' \<or> c = CHR ''{'')"

section \<open>Properties\<close>

subsection \<open>Reading and replacing at a location\<close>

lemma child_set_child_same: "child d s \<noteq> None \<Longrightarrow> child (set_child d s v) s = Some v"
  by (cases d; cases s) (auto simp: update_conv' split: if_splits)

lemma child_set_child_other: "s' \<noteq> s \<Longrightarrow> child (set_child d s v) s' = child d s'"
  by (cases d; cases s; cases s') (auto simp: update_conv')

lemma at_append: "at d (l @ r) = (case at d l of None \<Rightarrow> None | Some c \<Rightarrow> at c r)"
  by (induction l arbitrary: d) (auto split: option.splits)

lemma put_append: "at d l = Some c \<Longrightarrow> put d (l @ r) v = put d l (put c r v)"
  by (induction l arbitrary: d) (auto split: option.splits)

lemma at_put_same: "at d l \<noteq> None \<Longrightarrow> at (put d l v) l = Some v"
proof (induction l arbitrary: d)
  case Nil
  then show ?case by simp
next
  case (Cons s l)
  then obtain c where c: "child d s = Some c" by (auto split: option.splits)
  with Cons.prems have "at c l \<noteq> None" by simp
  then have "at (put c l v) l = Some v" by (rule Cons.IH)
  with c show ?case by (simp add: child_set_child_same)
qed

lemma at_put_below: "at d l \<noteq> None \<Longrightarrow> at (put d l v) (l @ r) = at v r"
proof (induction l arbitrary: d)
  case Nil
  then show ?case by simp
next
  case (Cons s l)
  then obtain c where c: "child d s = Some c" by (auto split: option.splits)
  with Cons.prems have "at c l \<noteq> None" by simp
  then have "at (put c l v) (l @ r) = at v r" by (rule Cons.IH)
  with c show ?case by (simp add: child_set_child_same)
qed

text \<open>A location that is neither above nor below the one replaced reads as before.\<close>

lemma at_put_frame: "\<not> prefix q l \<Longrightarrow> \<not> prefix l q \<Longrightarrow> at (put d l v) q = at d q"
proof (induction l arbitrary: d q)
  case Nil
  then show ?case by simp
next
  case (Cons s l)
  from Cons.prems obtain s' q' where q: "q = s' # q'" by (cases q) auto
  show ?case
  proof (cases "child d s")
    case None
    then show ?thesis by simp
  next
    case (Some c)
    show ?thesis
    proof (cases "s' = s")
      case True
      with Cons.prems q have "\<not> prefix q' l" "\<not> prefix l q'" by auto
      then have "at (put c l v) q' = at c q'" by (rule Cons.IH)
      with Some True q show ?thesis by (simp add: child_set_child_same)
    next
      case False
      with Some q show ?thesis by (simp add: child_set_child_other)
    qed
  qed
qed

text \<open>When a value without children replaces one, only the locations above it change.\<close>

lemma leafy_frame:
  assumes old: "at d l = Some old" and lo: "\<And>s. child old s = None"
    and lv: "\<And>s. child v s = None" and q: "\<not> prefix q l"
  shows "at (put d l v) q = at d q"
proof (cases "prefix l q")
  case True
  then obtain r where r: "q = l @ r" by (auto simp: prefix_def)
  with q have "r \<noteq> []" by auto
  then obtain s r' where sr: "r = s # r'" by (cases r) auto
  with old lo have "at d (l @ r) = None" by (simp add: at_append)
  moreover from old lv sr have "at (put d l v) (l @ r) = None"
    by (simp add: at_put_below)
  ultimately show ?thesis using r by simp
next
  case False
  with q show ?thesis by (simp add: at_put_frame)
qed

subsection \<open>The loop keeps track of where it is\<close>

lemma getitem_str_child:
  "getitem_str d k = Inr v \<longleftrightarrow> child d (Key k) = Some v \<and> (\<exists>kvs. d = JDict kvs)"
  by (cases d) (auto split: option.splits)

lemma getitem_str_dict: "getitem_str d k = Inr v \<Longrightarrow> \<exists>kvs. d = JDict kvs \<and> map_of kvs k = Some v"
  by (cases d) (auto split: option.splits)

lemma getitem_int_step:
  "getitem_int m i = Inr m' \<Longrightarrow> at root loc = Some m \<or> (\<exists>s. m = JStr s) \<Longrightarrow>
   at root (loc @ [Idx i]) = Some m' \<or> (\<exists>s. m' = JStr s)"
  by (cases m) (auto simp: at_append split: if_splits)

lemma getitem_str_step:
  "getitem_str m k = Inr m' \<Longrightarrow> at root loc = Some m \<or> (\<exists>s. m = JStr s) \<Longrightarrow>
   at root (loc @ [Key k]) = Some m'"
  by (cases m) (auto simp: at_append split: option.splits)

text \<open>
  The object in \<open>model\<close> is the one at \<open>loc\<close>, unless it is a character that an index
  into a string has produced.
\<close>

lemma traverse_at:
  "traverse m loc keys = Reached model loc' \<Longrightarrow> at root loc = Some m \<or> (\<exists>s. m = JStr s) \<Longrightarrow>
   at root loc' = Some model \<or> (\<exists>s. model = JStr s)"
proof (induction keys arbitrary: m loc)
  case Nil
  then show ?case by auto
next
  case (Cons key keys)
  show ?case
  proof (cases "isdigit key")
    case True
    with Cons.prems(1) obtain i m' where i: "py_int key = Some i"
      and m': "getitem_int m (nat i) = Inr m'"
      and t: "traverse m' (loc @ [Idx (nat i)]) keys = Reached model loc'"
      by (auto split: option.splits sum.splits)
    from getitem_int_step [OF m' Cons.prems(2)] t show ?thesis by (rule Cons.IH [rotated])
  next
    case False
    with Cons.prems(1) obtain m' where m': "getitem_str m key = Inr m'"
      and t: "traverse m' (loc @ [Key key]) keys = Reached model loc'"
      by (auto split: sum.splits bool.splits)
    from getitem_str_step [OF m' Cons.prems(2)] have "at root (loc @ [Key key]) = Some m'" .
    then have "at root (loc @ [Key key]) = Some m' \<or> (\<exists>s. m' = JStr s)" by simp
    with t show ?thesis by (rule Cons.IH)
  qed
qed

text \<open>A commit whose last key is in the container writes at the location of that key.\<close>

lemma update_model_value_present:
  assumes m: "getitem_str (bim_data w) ''model'' = Inr m"
    and t: "traverse m [] (butlast (current_path w)) = Reached model loc"
    and ne: "current_path w \<noteq> []"
    and c: "contains model (last (current_path w)) = Inr True"
    and old: "getitem_str model (last (current_path w)) = Inr old"
  shows "update_model_value w val =
     Updated (w\<lparr>bim_data := put (bim_data w) (Key ''model'' # loc @ [Key (last (current_path w))])
                               (new_value old val),
               tree := set_text (tree w) (current_item w) (current_key w @ '': '' @ val)\<rparr>)"
proof -
  let ?k = "last (current_path w)"
  from old obtain kvs where kvs: "model = JDict kvs" "map_of kvs ?k = Some old"
    by (auto dest: getitem_str_dict)
  from m have root: "child (bim_data w) (Key ''model'') = Some m"
    by (simp add: getitem_str_child)
  have "at m [] = Some m \<or> (\<exists>s. m = JStr s)" by simp
  with t have "at m loc = Some model \<or> (\<exists>s. model = JStr s)" by (rule traverse_at)
  with kvs have "at m loc = Some model" by simp
  with root have here: "at (bim_data w) (Key ''model'' # loc) = Some model" by simp
  have "put (bim_data w) ((Key ''model'' # loc) @ [Key ?k]) (new_value old val)
      = put (bim_data w) (Key ''model'' # loc) (put model [Key ?k] (new_value old val))"
    using here by (rule put_append)
  also have "put model [Key ?k] (new_value old val)
      = JDict (AList.update ?k (new_value old val) kvs)"
    using kvs by simp
  finally have eq: "put (bim_data w) (Key ''model'' # loc @ [Key ?k]) (new_value old val)
      = put (bim_data w) (Key ''model'' # loc) (JDict (AList.update ?k (new_value old val) kvs))"
    by simp
  show ?thesis
    unfolding update_model_value_def eq
    using m t ne c old kvs by (simp add: Let_def)
qed

lemma locate_SomeD:
  assumes "locate d path = Some (l, v)"
  obtains m model loc where "getitem_str d ''model'' = Inr m"
    "traverse m [] (butlast path) = Reached model loc" "path \<noteq> []"
    "contains model (last path) = Inr True" "getitem_str model (last path) = Inr v"
    "l = Key ''model'' # loc @ [Key (last path)]"
  using assms unfolding locate_def
  by (auto split: sum.splits trav.splits if_splits)

lemma locate_at: "locate d path = Some (l, v) \<Longrightarrow> at d l = Some v"
proof (erule locate_SomeD)
  fix m model loc
  assume m: "getitem_str d ''model'' = Inr m"
    and t: "traverse m [] (butlast path) = Reached model loc"
    and v: "getitem_str model (last path) = Inr v"
    and l: "l = Key ''model'' # loc @ [Key (last path)]"
  have "at m [] = Some m \<or> (\<exists>s. m = JStr s)" by simp
  with t have "at m loc = Some model \<or> (\<exists>s. model = JStr s)" by (rule traverse_at)
  with v have "at m loc = Some model" by (auto dest: getitem_str_dict)
  with m v l show "at d l = Some v"
    by (auto simp: getitem_str_child at_append)
qed

lemma locate_commit:
  assumes "locate (bim_data w) (current_path w) = Some (l, old)"
  shows "update_model_value w val =
      Updated (w\<lparr>bim_data := put (bim_data w) l (new_value old val),
                tree := set_text (tree w) (current_item w) (current_key w @ '': '' @ val)\<rparr>)"
  using assms by (elim locate_SomeD) (simp add: update_model_value_present)

subsection \<open>The items\<close>

lemma item_at_set_text:
  "item_at t pos = Some n \<Longrightarrow> item_at (set_text t pos s) pos = Some (Node s (children n))"
proof (induction pos arbitrary: t)
  case Nil
  then show ?case by (cases t) auto
next
  case (Cons i pos)
  then show ?case by (cases t) (auto split: if_splits)
qed

lemma item_text_set_text:
  "item_at t pos \<noteq> None \<Longrightarrow> item_text (set_text t pos s) pos = s"
  by (auto simp: item_text_def item_at_set_text)

lemma get_json_path_child:
  "get_json_path t [i] = [fst (split1 sep (item_text t [i]))]"
  by (simp add: get_json_path_def path_loop.simps [of t "[i]"] path_loop.simps [of t "[]"])

lemma root_leaf_paths:
  assumes "load_tree d = Inr t"
  shows "get_json_path t [0] = [''name'']" "get_json_path t [1] = [''compatibilityLevel'']"
proof -
  from assms obtain nm cl groups where
    t: "t = Node ''Model'' (leaf (''name'', nm) # leaf (''compatibilityLevel'', cl) # groups)"
    unfolding load_tree_def by (auto split: sum.splits)
  show "get_json_path t [0] = [''name'']"
    by (simp add: t get_json_path_child item_text_def leaf_def sep_def)
  show "get_json_path t [1] = [''compatibilityLevel'']"
    by (simp add: t get_json_path_child item_text_def leaf_def sep_def)
qed

lemma updated_root_fields:
  assumes "update_model_value w val = Updated w'" and "k \<noteq> ''model''"
  shows "child (bim_data w') (Key k) = child (bim_data w) (Key k)"
  using assms unfolding update_model_value_def
  by (auto simp: Let_def child_set_child_other
      split: sum.splits trav.splits if_splits bool.splits option.splits)

lemma error_box_same:
  "update_model_value w val = Error_box msg w' \<Longrightarrow> w' = w"
  unfolding update_model_value_def
  by (auto simp: Let_def split: sum.splits trav.splits if_splits bool.splits)

lemma update_model_value_single:
  assumes "current_path w = [k]" and "getitem_str (bim_data w) ''model'' = Inr (JDict kvs)"
  shows "update_model_value w val =
     Updated (case map_of kvs k of
                None \<Rightarrow> w\<lparr>tree := set_text (tree w) (current_item w) (current_key w @ '': '' @ val)\<rparr>
              | Some old \<Rightarrow>
                  w\<lparr>bim_data := put (bim_data w) [Key ''model'', Key k] (new_value old val),
                    tree := set_text (tree w) (current_item w) (current_key w @ '': '' @ val)\<rparr>)"
proof (cases "map_of kvs k")
  case None
  then have "k \<notin> fst ` set kvs" by (simp add: map_of_eq_None_iff)
  with assms None show ?thesis by (simp add: update_model_value_def Let_def)
next
  case (Some old)
  then have "k \<in> fst ` set kvs" by (auto dest: map_of_SomeD intro: rev_image_eqI)
  with assms Some show ?thesis
    by (cases "bim_data w") (auto simp: update_model_value_def Let_def split: option.splits)
qed

subsection \<open>The windows of the examples\<close>

lemma example_windows:
  "load_bim_file ''model.bim'' sales_doc = Inr sales_window"
  "load_bim_file ''model.bim'' indexed_doc = Inr indexed_window"
  "load_bim_file ''model.bim'' numbered_doc = Inr numbered_window"
  "load_bim_file ''model.bim'' named_doc = Inr named_window"
  by code_simp+

subsection \<open>Paths of the tree against the document\<close>

text \<open>
  Claim C1 (path resolution consistency): for every item of the tree that
  \<^verbatim>\<open>load_tree\<close> builds from a well-formed document, the path that \<^verbatim>\<open>get_json_path\<close>
  reconstructs resolves, by the lookup of \<^verbatim>\<open>update_model_value\<close>, to the value shown in
  the label of the item.

  The program does not do this. In the document with \<^verbatim>\<open>model.tables[0].name == "Sales"\<close>
  the leaf \<^verbatim>\<open>name: Sales\<close> has the path \<^verbatim>\<open>tables, Sales, name\<close>: the second segment
  is the label of the table's item, not its index. The loop looks for the string
  \<^verbatim>\<open>Sales\<close> among the elements of the list of tables, does not find it and gives up, so
  the lookup yields no value, while the value is at \<^verbatim>\<open>model, tables, 0, name\<close>.
\<close>

theorem path_of_named_item_does_not_resolve:
  "load_bim_file ''model.bim'' sales_doc = Inr sales_window
   \<and> item_text (tree sales_window) [3, 0, 0] = ''name: Sales''
   \<and> get_json_path (tree sales_window) [3, 0, 0] = [''tables'', ''Sales'', ''name'']
   \<and> traverse sales_model [] [''tables'', ''Sales''] = Unable
   \<and> locate sales_doc [''tables'', ''Sales'', ''name''] = None
   \<and> at sales_doc [Key ''model'', Key ''tables'', Idx 0, Key ''name''] = Some (JStr ''Sales'')"
  by code_simp

text \<open>
  Claim C2 (scenario, edit a name): with \<^verbatim>\<open>model.tables[0].name == "Sales"\<close>, selecting
  the leaf and committing \<^verbatim>\<open>Sales2\<close> makes the name \<^verbatim>\<open>Sales2\<close> in the document and the
  label \<^verbatim>\<open>name: Sales2\<close>.

  The program does not do this. The click on the leaf stores the path
  \<^verbatim>\<open>tables, Sales, name\<close>; the commit shows the message that the path cannot be updated
  and returns: the name in the document is still \<^verbatim>\<open>Sales\<close> and so is the label.
\<close>

theorem edit_name_scenario_is_refused:
  "load_bim_file ''model.bim'' sales_doc = Inr sales_window
   \<and> on_tree_item_click sales_window [3, 0, 0] =
       sales_window\<lparr>editor := Some ''Sales'', current_key := ''name'', current_item := [3, 0, 0],
                    current_path := [''tables'', ''Sales'', ''name'']\<rparr>
   \<and> update_model_value (on_tree_item_click sales_window [3, 0, 0]) ''Sales2'' =
       Error_box ''Unable to update the path: ['tables', 'Sales', 'name']''
         (on_tree_item_click sales_window [3, 0, 0])
   \<and> at (bim_data (on_tree_item_click sales_window [3, 0, 0]))
        [Key ''model'', Key ''tables'', Idx 0, Key ''name''] = Some (JStr ''Sales'')
   \<and> item_text (tree (on_tree_item_click sales_window [3, 0, 0])) [3, 0, 0] = ''name: Sales''"
  by code_simp

subsection \<open>The commit on a value that the path reaches\<close>

text \<open>
  Claim C3 (type-preserving commit): when the path of the selection resolves to a
  location \<open>l\<close> that holds the integer 42, committing \<^verbatim>\<open>7\<close> stores the integer 7 at \<open>l\<close>
  and committing \<^verbatim>\<open>abc\<close> stores the string \<^verbatim>\<open>abc\<close> there. In both cases the new
  document is the old one with the value at \<open>l\<close> replaced, and every location that is not
  on the way to \<open>l\<close> reads as before.
\<close>

theorem commit_on_int_leaf:
  assumes "locate (bim_data w) (current_path w) = Some (l, JInt 42)"
  shows "update_model_value w ''7'' =
           Updated (w\<lparr>bim_data := put (bim_data w) l (JInt 7),
                     tree := set_text (tree w) (current_item w) (current_key w @ '': '' @ ''7'')\<rparr>)
       \<and> update_model_value w ''abc'' =
           Updated (w\<lparr>bim_data := put (bim_data w) l (JStr ''abc''),
                     tree := set_text (tree w) (current_item w) (current_key w @ '': '' @ ''abc'')\<rparr>)
       \<and> at (put (bim_data w) l (JInt 7)) l = Some (JInt 7)
       \<and> at (put (bim_data w) l (JStr ''abc'')) l = Some (JStr ''abc'')
       \<and> (\<forall>q. \<not> prefix q l \<longrightarrow>
             at (put (bim_data w) l (JInt 7)) q = at (bim_data w) q
           \<and> at (put (bim_data w) l (JStr ''abc'')) q = at (bim_data w) q)"
proof -
  from assms have here: "at (bim_data w) l = Some (JInt 42)" by (rule locate_at)
  have seven: "new_value (JInt 42) ''7'' = JInt 7" by code_simp
  have abc: "new_value (JInt 42) ''abc'' = JStr ''abc''" by code_simp
  note u = locate_commit [OF assms]
  from here have same: "at (put (bim_data w) l v) l = Some v" for v
    by (simp add: at_put_same)
  have frame: "at (put (bim_data w) l (JInt 7)) q = at (bim_data w) q"
      "at (put (bim_data w) l (JStr ''abc'')) q = at (bim_data w) q" if "\<not> prefix q l" for q
    using here that by (auto intro!: leafy_frame)
  show ?thesis
    using u [of "''7''"] u [of "''abc''"] same frame unfolding seven abc by blast
qed

theorem commit_on_int_leaf_witness:
  "locate (bim_data (on_tree_item_click indexed_window [3, 0, 1]))
          (current_path (on_tree_item_click indexed_window [3, 0, 1]))
     = Some ([Key ''model'', Key ''tables'', Idx 0, Key ''rows''], JInt 42)
   \<and> update_model_value (on_tree_item_click indexed_window [3, 0, 1]) ''7'' =
       Updated ((on_tree_item_click indexed_window [3, 0, 1])
         \<lparr>bim_data := put indexed_doc [Key ''model'', Key ''tables'', Idx 0, Key ''rows''] (JInt 7),
          tree := set_text (tree indexed_window) [3, 0, 1] ''rows: 7''\<rparr>)
   \<and> at (put indexed_doc [Key ''model'', Key ''tables'', Idx 0, Key ''rows''] (JInt 7))
        [Key ''model'', Key ''tables'', Idx 0, Key ''isHidden'']
     = at indexed_doc [Key ''model'', Key ''tables'', Idx 0, Key ''isHidden'']"
proof -
  let ?w = "on_tree_item_click indexed_window [3, 0, 1]"
  let ?l = "[Key ''model'', Key ''tables'', Idx 0, Key ''rows'']"
  let ?o = "[Key ''model'', Key ''tables'', Idx 0, Key ''isHidden'']"
  have h: "locate (bim_data ?w) (current_path ?w) = Some (?l, JInt 42)"
    by code_simp
  have w: "bim_data ?w = indexed_doc" "tree ?w = tree indexed_window"
    "current_item ?w = [3, 0, 1]" "current_key ?w = ''rows''"
    by code_simp+
  note c = commit_on_int_leaf [OF h]
  from c have "\<forall>q. \<not> prefix q ?l \<longrightarrow> at (put (bim_data ?w) ?l (JInt 7)) q = at (bim_data ?w) q"
    by blast
  moreover have "\<not> prefix ?o ?l" by simp
  ultimately have "at (put (bim_data ?w) ?l (JInt 7)) ?o = at (bim_data ?w) ?o" by blast
  with h c show ?thesis unfolding w by simp
qed

text \<open>
  Claim C9 (a boolean is treated as an integer): when the path of the selection resolves
  to a location that holds a boolean, the commit stores the integer that the text parses
  to, or the text itself when it does not parse; what is stored is never a boolean.
\<close>

theorem commit_on_bool_stores_int_or_text:
  assumes "locate (bim_data w) (current_path w) = Some (l, JBool b)"
  shows "update_model_value w val =
           Updated (w\<lparr>bim_data := put (bim_data w) l
                                    (case py_int val of Some n \<Rightarrow> JInt n | None \<Rightarrow> JStr val),
                     tree := set_text (tree w) (current_item w) (current_key w @ '': '' @ val)\<rparr>)
       \<and> at (put (bim_data w) l (case py_int val of Some n \<Rightarrow> JInt n | None \<Rightarrow> JStr val)) l
           = Some (case py_int val of Some n \<Rightarrow> JInt n | None \<Rightarrow> JStr val)
       \<and> (\<forall>b'. at (put (bim_data w) l (case py_int val of Some n \<Rightarrow> JInt n | None \<Rightarrow> JStr val)) l
                  \<noteq> Some (JBool b'))"
proof -
  from assms have here: "at (bim_data w) l = Some (JBool b)" by (rule locate_at)
  have nv: "new_value (JBool b) val = (case py_int val of Some n \<Rightarrow> JInt n | None \<Rightarrow> JStr val)"
    by (simp add: new_value_def)
  note u = locate_commit [OF assms, of val]
  moreover from here have "at (put (bim_data w) l v) l = Some v" for v
    by (simp add: at_put_same)
  ultimately show ?thesis unfolding nv by (auto split: option.splits)
qed

theorem commit_on_bool_witness:
  "locate (bim_data (on_tree_item_click indexed_window [3, 0, 2]))
          (current_path (on_tree_item_click indexed_window [3, 0, 2]))
     = Some ([Key ''model'', Key ''tables'', Idx 0, Key ''isHidden''], JBool True)
   \<and> update_model_value (on_tree_item_click indexed_window [3, 0, 2]) ''7'' =
       Updated ((on_tree_item_click indexed_window [3, 0, 2])
         \<lparr>bim_data := put indexed_doc [Key ''model'', Key ''tables'', Idx 0, Key ''isHidden''] (JInt 7),
          tree := set_text (tree indexed_window) [3, 0, 2] ''isHidden: 7''\<rparr>)
   \<and> update_model_value (on_tree_item_click indexed_window [3, 0, 2]) ''False'' =
       Updated ((on_tree_item_click indexed_window [3, 0, 2])
         \<lparr>bim_data := put indexed_doc [Key ''model'', Key ''tables'', Idx 0, Key ''isHidden'']
                         (JStr ''False''),
          tree := set_text (tree indexed_window) [3, 0, 2] ''isHidden: False''\<rparr>)"
proof -
  let ?w = "on_tree_item_click indexed_window [3, 0, 2]"
  let ?l = "[Key ''model'', Key ''tables'', Idx 0, Key ''isHidden'']"
  have h: "locate (bim_data ?w) (current_path ?w) = Some (?l, JBool True)"
    by code_simp
  have w: "bim_data ?w = indexed_doc" "tree ?w = tree indexed_window"
    "current_item ?w = [3, 0, 2]" "current_key ?w = ''isHidden''"
    by code_simp+
  have p: "py_int ''7'' = Some 7" "py_int ''False'' = None" by code_simp+
  from h commit_on_bool_stores_int_or_text [OF h, of "''7''"]
    commit_on_bool_stores_int_or_text [OF h, of "''False''"]
  show ?thesis unfolding w p by simp
qed

subsection \<open>Segments that do not resolve\<close>

lemma traverse_append:
  "traverse m loc (ks @ ks') =
     (case traverse m loc ks of
        Reached m' loc' \<Rightarrow> traverse m' loc' ks'
      | Unable \<Rightarrow> Unable
      | Raised e \<Rightarrow> Raised e)"
  by (induction ks arbitrary: m loc) (auto split: option.splits sum.splits bool.splits)

text \<open>
  A segment before the last that is not a number and is not in the container that the
  loop has reached: the commit shows the message and returns, and the window is as it
  was.
\<close>

lemma missing_key_is_refused:
  assumes "getitem_str (bim_data w) ''model'' = Inr m"
    and "butlast (current_path w) = ks @ key # ks'"
    and "traverse m [] ks = Reached model loc"
    and "\<not> isdigit key" and "contains model key = Inr False"
  shows "update_model_value w val = Error_box (unable_message (current_path w)) w"
  using assms by (simp add: update_model_value_def traverse_append)

text \<open>
  Claim C5 (a commit whose path has an intermediate segment that does not resolve fails
  with a path error shown to the user, leaves the document as it is and the session
  usable).

  The program does this for a segment that is not a number and is missing from the
  container: the \<^verbatim>\<open>else\<close> branch shows the message and returns (the lemma
  \<open>missing_key_is_refused\<close>). It does not for a
  segment of digits: \<^verbatim>\<open>model[int(key)]\<close> is not guarded, and an index past the end of
  the list raises \<^verbatim>\<open>IndexError\<close>, which nothing catches. A table named \<^verbatim>\<open>5\<close> in a list
  of one table is such a segment.
\<close>

theorem index_segment_out_of_range_raises:
  "load_bim_file ''model.bim'' numbered_doc = Inr numbered_window
   \<and> current_path (on_tree_item_click numbered_window [3, 0, 1]) = [''tables'', ''5'', ''rows'']
   \<and> update_model_value (on_tree_item_click numbered_window [3, 0, 1]) ''7'' = Uncaught IndexError"
  by code_simp

text \<open>
  Claim C6 (an index segment that is out of bounds, the second-to-last segment included,
  is rejected with a path error and not a crash, the document unchanged).

  The program does not do this, for the reason given at C5: the second-to-last segment
  \<^verbatim>\<open>1\<close> of the path \<^verbatim>\<open>relationships, 1, fromTable\<close> indexes a list of one relationship,
  the loop raises \<^verbatim>\<open>IndexError\<close> and the handler ends with it.
\<close>

theorem second_to_last_index_out_of_range_raises:
  "load_bim_file ''model.bim'' numbered_doc = Inr numbered_window
   \<and> current_path (on_tree_item_click numbered_window [4, 0, 1])
     = [''relationships'', ''1'', ''fromTable'']
   \<and> traverse numbered_model [] [''relationships'', ''1''] = Raised IndexError
   \<and> update_model_value (on_tree_item_click numbered_window [4, 0, 1]) ''Sales''
     = Uncaught IndexError"
  by code_simp

subsection \<open>A last key that the container does not have\<close>

text \<open>
  Claim C7 (an absent final segment is a label-only no-op): when the loop reaches a
  container and the last segment of the path is not in it, the commit returns, the
  document is the same, and the selected item reads \<^verbatim>\<open>key: text\<close> with the key of the
  selection and the committed text; nothing else of the window changes.
\<close>

theorem absent_final_key_changes_label_only:
  assumes "getitem_str (bim_data w) ''model'' = Inr m"
    and "traverse m [] (butlast (current_path w)) = Reached model loc"
    and "current_path w \<noteq> []"
    and "contains model (last (current_path w)) = Inr False"
    and "item_at (tree w) (current_item w) \<noteq> None"
  shows "\<exists>w'. update_model_value w val = Updated w'
           \<and> bim_data w' = bim_data w
           \<and> item_text (tree w') (current_item w) = current_key w @ '': '' @ val
           \<and> w' = w\<lparr>tree := set_text (tree w) (current_item w) (current_key w @ '': '' @ val)\<rparr>"
  using assms by (simp add: update_model_value_def Let_def item_text_set_text)

theorem absent_final_key_witness:
  "getitem_str (bim_data (on_tree_item_click sales_window [0])) ''model''
     = Inr sales_model
   \<and> contains sales_model ''name'' = Inr False
   \<and> current_path (on_tree_item_click sales_window [0]) = [''name'']
   \<and> (\<exists>w'. update_model_value (on_tree_item_click sales_window [0]) ''Renamed'' = Updated w'
           \<and> bim_data w' = sales_doc
           \<and> item_text (tree w') [0] = ''name: Renamed'')"
proof -
  let ?w = "on_tree_item_click sales_window [0]"
  let ?m = "sales_model"
  have w: "bim_data ?w = sales_doc" "current_path ?w = [''name'']" "current_item ?w = [0]"
    "current_key ?w = ''name''"
    by code_simp+
  have 1: "getitem_str (bim_data ?w) ''model'' = Inr ?m" by code_simp
  have 2: "traverse ?m [] (butlast (current_path ?w)) = Reached ?m []" by code_simp
  have 3: "current_path ?w \<noteq> []" by code_simp
  have 4: "contains ?m (last (current_path ?w)) = Inr False" by code_simp
  have 5: "item_at (tree ?w) (current_item ?w) \<noteq> None" by code_simp
  have 6: "contains ?m ''name'' = Inr False" by code_simp
  from absent_final_key_changes_label_only [OF 1 2 3 4 5, of "''Renamed''"] 1 6
  show ?thesis unfolding w by auto
qed

subsection \<open>The commit starts at the model\<close>

text \<open>
  Claim C10 (every commit resolves its path from \<^verbatim>\<open>bim_data["model"]\<close>, never from the
  root). A commit that returns leaves the root's \<^verbatim>\<open>name\<close> and \<^verbatim>\<open>compatibilityLevel\<close>
  as they were, and one that shows the error message leaves the whole window as it was.
  The two leaves under the top-level item have the paths \<^verbatim>\<open>name\<close> and
  \<^verbatim>\<open>compatibilityLevel\<close>; a commit with a path of one segment \<open>k\<close> looks \<open>k\<close> up in the
  model: it writes the model's field \<open>k\<close> when the model has one and changes the label
  only when it has none.
\<close>

theorem commit_starts_at_model:
  "(update_model_value w val = Updated w' \<longrightarrow>
      child (bim_data w') (Key ''name'') = child (bim_data w) (Key ''name'')
    \<and> child (bim_data w') (Key ''compatibilityLevel'')
        = child (bim_data w) (Key ''compatibilityLevel''))
   \<and> (update_model_value w val = Error_box msg w' \<longrightarrow> w' = w)
   \<and> (load_tree d = Inr t \<longrightarrow>
        get_json_path t [0] = [''name''] \<and> get_json_path t [1] = [''compatibilityLevel''])
   \<and> (current_path w = [k] \<and> getitem_str (bim_data w) ''model'' = Inr (JDict kvs) \<longrightarrow>
        update_model_value w val =
          Updated (case map_of kvs k of
                     None \<Rightarrow>
                       w\<lparr>tree := set_text (tree w) (current_item w) (current_key w @ '': '' @ val)\<rparr>
                   | Some old \<Rightarrow>
                       w\<lparr>bim_data := put (bim_data w) [Key ''model'', Key k] (new_value old val),
                         tree := set_text (tree w) (current_item w)
                                   (current_key w @ '': '' @ val)\<rparr>))"
proof (intro conjI impI)
  assume u: "update_model_value w val = Updated w'"
  from u show "child (bim_data w') (Key ''name'') = child (bim_data w) (Key ''name'')"
    by (rule updated_root_fields) simp
  from u show "child (bim_data w') (Key ''compatibilityLevel'')
      = child (bim_data w) (Key ''compatibilityLevel'')"
    by (rule updated_root_fields) simp
next
  assume "update_model_value w val = Error_box msg w'"
  then show "w' = w" by (rule error_box_same)
next
  assume t: "load_tree d = Inr t"
  from t show "get_json_path t [0] = [''name'']" by (rule root_leaf_paths)
  from t show "get_json_path t [1] = [''compatibilityLevel'']" by (rule root_leaf_paths)
next
  assume "current_path w = [k] \<and> getitem_str (bim_data w) ''model'' = Inr (JDict kvs)"
  then show "update_model_value w val =
          Updated (case map_of kvs k of
                     None \<Rightarrow>
                       w\<lparr>tree := set_text (tree w) (current_item w) (current_key w @ '': '' @ val)\<rparr>
                   | Some old \<Rightarrow>
                       w\<lparr>bim_data := put (bim_data w) [Key ''model'', Key k] (new_value old val),
                         tree := set_text (tree w) (current_item w)
                                   (current_key w @ '': '' @ val)\<rparr>)"
    by (simp add: update_model_value_single)
qed

theorem commit_starts_at_model_witness:
  "load_tree named_doc = Inr (tree named_window)
   \<and> get_json_path (tree named_window) [0] = [''name'']
   \<and> current_path (on_tree_item_click named_window [0]) = [''name'']
   \<and> update_model_value (on_tree_item_click named_window [0]) ''Renamed'' =
       Updated ((on_tree_item_click named_window [0])
         \<lparr>bim_data := renamed_doc, tree := set_text (tree named_window) [0] ''name: Renamed''\<rparr>)
   \<and> child renamed_doc (Key ''name'') = child named_doc (Key ''name'')
   \<and> child named_doc (Key ''name'') = Some (JStr ''Outer'')"
proof -
  let ?w = "on_tree_item_click named_window [0]"
  let ?kvs = "[(''name'', JStr ''Inner''), (''dataSources'', JList []), (''tables'', JList []),
            (''relationships'', JList []), (''perspectives'', JList []),
            (''annotations'', JList []), (''translations'', JList [])]"
  let ?w' = "?w\<lparr>bim_data := renamed_doc,
          tree := set_text (tree named_window) [0] ''name: Renamed''\<rparr>"
  note c = commit_starts_at_model [of ?w "''Renamed''" ?w' undefined named_doc "tree named_window"
      "''name''" ?kvs]
  have t: "load_tree named_doc = Inr (tree named_window)" by code_simp
  have p: "current_path ?w = [''name'']" by code_simp
  have m: "getitem_str (bim_data ?w) ''model'' = Inr (JDict ?kvs)" by code_simp
  have w: "bim_data ?w = named_doc" "tree ?w = tree named_window"
    "current_item ?w = [0]" "current_key ?w = ''name''"
    by code_simp+
  have n: "new_value (JStr ''Inner'') ''Renamed'' = JStr ''Renamed''" by code_simp
  have d: "put named_doc [Key ''model'', Key ''name''] (JStr ''Renamed'') = renamed_doc"
    by code_simp
  have k: "map_of ?kvs ''name'' = Some (JStr ''Inner'')" by simp
  have o: "child named_doc (Key ''name'') = Some (JStr ''Outer'')" by code_simp
  from c p m have "update_model_value ?w ''Renamed'' =
      Updated (case map_of ?kvs ''name'' of
                 None \<Rightarrow> ?w\<lparr>tree := set_text (tree ?w) (current_item ?w)
                                       (current_key ?w @ '': '' @ ''Renamed'')\<rparr>
               | Some old \<Rightarrow>
                   ?w\<lparr>bim_data := put (bim_data ?w) [Key ''model'', Key ''name'']
                                    (new_value old ''Renamed''),
                      tree := set_text (tree ?w) (current_item ?w)
                                (current_key ?w @ '': '' @ ''Renamed'')\<rparr>)"
    by blast
  then have u: "update_model_value ?w ''Renamed'' = Updated ?w'"
    unfolding k option.case w n d by simp
  from c t have g: "get_json_path (tree named_window) [0] = [''name'']" by blast
  from c u have "child (bim_data ?w') (Key ''name'') = child (bim_data ?w) (Key ''name'')"
    by blast
  then have "child renamed_doc (Key ''name'') = child named_doc (Key ''name'')"
    unfolding w by simp
  with t g p u o show ?thesis by blast
qed

subsection \<open>A save that fails\<close>

lemma on_tree_item_click_file_path: "file_path (on_tree_item_click w item) = file_path w"
  by (simp add: on_tree_item_click_def Let_def split: prod.splits)

lemma updated_file_path: "update_model_value w val = Updated w' \<Longrightarrow> file_path w' = file_path w"
  unfolding update_model_value_def
  by (auto simp: Let_def split: sum.splits trav.splits if_splits bool.splits)

text \<open>No handler reads the text of the file or the dialogs shown, and none assigns the
  path of the file.\<close>

lemma handle_window:
  assumes "handle ev (w, f, sh) = Inr (w', f', sh')"
  shows "file_path w' = file_path w" and "\<exists>g' k'. handle ev (w, g, k) = Inr (w', g', k')"
proof -
  show "file_path w' = file_path w"
    using assms
    by (cases ev)
      (auto simp: on_tree_item_click_file_path dest: error_box_same updated_file_path
        split: option.splits outcome.splits prod.splits)
  show "\<exists>g' k'. handle ev (w, g, k) = Inr (w', g', k')"
    using assms
    by (cases ev) (auto split: option.splits outcome.splits prod.splits)
qed

lemma run_window:
  "run evs (w, f, sh) = Inr (w', f', sh') \<Longrightarrow>
   file_path w' = file_path w \<and> (\<exists>g' k'. run evs (w, g, k) = Inr (w', g', k'))"
proof (induction evs arbitrary: w f sh g k)
  case Nil
  then show ?case by simp
next
  case (Cons ev evs)
  from Cons.prems obtain w1 f1 sh1 where h: "handle ev (w, f, sh) = Inr (w1, f1, sh1)"
    and r: "run evs (w1, f1, sh1) = Inr (w', f', sh')"
    by (auto split: sum.splits)
  from handle_window [OF h] obtain g1 k1 where p: "file_path w1 = file_path w"
    and h': "handle ev (w, g, k) = Inr (w1, g1, k1)" by blast
  from Cons.IH [OF r, of g1 k1] p h' show ?case by auto
qed

lemma run_append:
  "run (evs @ evs') s = (case run evs s of Inl e \<Rightarrow> Inl e | Inr s' \<Rightarrow> run evs' s')"
  by (induction evs arbitrary: s) (auto split: sum.splits)

text \<open>
  Claim C8 (a save that fails keeps the state in memory): in a window with a file path,
  a save whose write fails shows the error dialog and leaves the window as it is, and
  the session goes on. Whatever the events \<open>evs\<close> after it do to the window (they lead
  from \<open>w\<close> to \<open>w'\<close> when run on their own), a save that then goes through writes the
  text of the document as it is then, with the edits made since the failure.
\<close>

theorem failed_save_keeps_document:
  assumes "file_path w \<noteq> []"
    and "run evs (w, file, shown) = Inr (w', file', shown')"
  shows "handle (Save_triggered (Write_fails left e)) (w, file, shown)
           = Inr (w, left, shown @ [Critical ''Error'' (''Failed to save file: '' @ e)])
       \<and> (\<exists>shown''. run (Save_triggered (Write_fails left e) # evs @ [Save_triggered Write_ok])
                        (w, file, shown)
                      = Inr (w', json_dumps (bim_data w'), shown''))"
proof -
  let ?sh = "shown @ [Critical ''Error'' (''Failed to save file: '' @ e)]"
  from assms(1) have first: "handle (Save_triggered (Write_fails left e)) (w, file, shown)
      = Inr (w, left, ?sh)"
    by (simp add: save_bim_file_def)
  from run_window [OF assms(2), of left ?sh] obtain g' k' where p: "file_path w' = file_path w"
    and r: "run evs (w, left, ?sh) = Inr (w', g', k')" by blast
  from p assms(1) have "handle (Save_triggered Write_ok) (w', g', k')
      = Inr (w', json_dumps (bim_data w'),
             k' @ [Information ''File Saved'' (basename (file_path w') @ '' saved successfully.'')])"
    by (simp add: save_bim_file_def)
  with r have "run (evs @ [Save_triggered Write_ok]) (w, left, ?sh)
      = Inr (w', json_dumps (bim_data w'),
             k' @ [Information ''File Saved'' (basename (file_path w') @ '' saved successfully.'')])"
    by (simp add: run_append)
  with first show ?thesis by simp
qed

theorem failed_save_witness:
  "file_path indexed_window \<noteq> []
   \<and> (\<exists>w' shown'.
        run [Item_clicked [3, 0, 1], Editing_finished ''7''] (indexed_window, ''old text'', [])
          = Inr (w', ''old text'', shown')
      \<and> bim_data w' = edited_doc
      \<and> (\<exists>shown''.
           run [Save_triggered (Write_fails ''{'' ''No space left on device''),
                Item_clicked [3, 0, 1], Editing_finished ''7'', Save_triggered Write_ok]
             (indexed_window, ''old text'', [])
           = Inr (w', json_dumps edited_doc, shown'')))"
proof -
  let ?evs = "[Item_clicked [3, 0, 1], Editing_finished ''7'']"
  let ?w' = "(on_tree_item_click indexed_window [3, 0, 1])
         \<lparr>bim_data := edited_doc,
          tree := set_text (tree indexed_window) [3, 0, 1] ''rows: 7''\<rparr>"
  have p: "file_path indexed_window \<noteq> []" by code_simp
  have r: "run ?evs (indexed_window, ''old text'', []) = Inr (?w', ''old text'', [])"
    by code_simp
  have b: "bim_data ?w' = edited_doc" by simp
  from failed_save_keeps_document [OF p r, of "''{''" "''No space left on device''"]
  have "\<exists>shown''. run (Save_triggered (Write_fails ''{'' ''No space left on device'') # ?evs
                          @ [Save_triggered Write_ok]) (indexed_window, ''old text'', [])
                      = Inr (?w', json_dumps (bim_data ?w'), shown'')"
    by blast
  then have "\<exists>shown''. run [Save_triggered (Write_fails ''{'' ''No space left on device''),
                Item_clicked [3, 0, 1], Editing_finished ''7'', Save_triggered Write_ok]
             (indexed_window, ''old text'', []) = Inr (?w', json_dumps edited_doc, shown'')"
    unfolding b by simp
  with p r b show ?thesis by blast
qed

subsection \<open>The bound of the decoder\<close>

text \<open>Each function of the decoder that gives a value has read at least one character,
  and a bound of the number of characters read is enough for it.\<close>

lemma scanstring_shorter: "scanstring s = Some (x, r) \<Longrightarrow> length r < length s"
proof (induction s arbitrary: x r rule: scanstring.induct)
  case 1
  then show ?case by simp
next
  case (2 c t)
  show ?case
  proof (cases "c = CHR 0x22")
    case True
    with "2.prems" show ?thesis by simp
  next
    case nq: False
    show ?thesis
    proof (cases "c = CHR 0x5C")
      case True
      with nq "2.prems" obtain e r1 where t: "t = e # r1" by (cases t) auto
      show ?thesis
      proof (cases "e = CHR ''u''")
        case u: True
        with nq True t "2.prems" obtain a b y d r2 n x' where r1: "r1 = a # b # y # d # r2"
          and h: "hex4_value a b y d = Some n" and n: "n < 256"
          and s: "scanstring r2 = Some (x', r)"
          by (auto simp: cons_result_def split: list.splits option.splits if_splits)
        from t r1 have t': "t = e # a # b # y # d # r2" by simp
        from "2.IH"(1) [OF nq True t' u refl refl refl refl h n s] show ?thesis
          by (simp add: t')
      next
        case nu: False
        with nq True t "2.prems" obtain y x' where y: "unescape e = Some y"
          and s: "scanstring r1 = Some (x', r)"
          by (auto simp: cons_result_def split: option.splits)
        from "2.IH"(2) [OF nq True t nu y s] show ?thesis by (simp add: t)
      qed
    next
      case False
      with nq "2.prems" obtain x' where lo: "\<not> (of_char c :: nat) < 32"
        and s: "scanstring t = Some (x', r)"
        by (auto simp: cons_result_def split: option.splits if_splits)
      from "2.IH"(3) [OF nq False lo s] show ?thesis by simp
    qed
  qed
qed

lemma skip_ws_length: "length (skip_ws s) \<le> length s"
  by (simp add: skip_ws_def length_dropWhile_le)

lemma match_integer_shorter: "match_integer s = Some (i, r) \<Longrightarrow> length r < length s"
  by (cases s)
    (auto simp: match_integer_def Let_def le_imp_less_Suc length_dropWhile_le
      split: list.splits if_splits intro: le_less_trans [OF length_dropWhile_le])

lemma match_frac_length: "match_frac s = (f, r) \<Longrightarrow> length r \<le> length s"
  by (auto simp: match_frac_def split: list.splits if_splits
      intro: le_trans [OF length_dropWhile_le])

lemma match_exp_length: "match_exp s = (f, r) \<Longrightarrow> length r \<le> length s"
  by (auto simp: match_exp_def Let_def split: list.splits if_splits
      intro: le_trans [OF length_dropWhile_le])

lemma match_number_shorter: "match_number pf s = Some (v, r) \<Longrightarrow> length r < length s"
  by (auto simp: match_number_def split: option.splits prod.splits if_splits
      dest!: match_integer_shorter match_frac_length match_exp_length)

lemma startswith_length: "startswith s p \<Longrightarrow> length p \<le> length s"
  by (induction s p rule: startswith.induct) auto

lemma scan_plain_shorter: "scan_plain pf s = Some (v, r) \<Longrightarrow> length r < length s"
  by (auto simp: scan_plain_def split: if_splits option.splits
      dest: match_number_shorter startswith_length)

lemma skip_ws_Cons_length: "skip_ws s = c # r \<Longrightarrow> length r < length s"
  using skip_ws_length [of s] by simp

lemma bound_enough:
  "(\<forall>s v r. scan_once pf n s = Some (v, r) \<longrightarrow>
      length r < length s \<and> (\<forall>m. length s - length r \<le> m \<longrightarrow> scan_once pf m s = Some (v, r)))
 \<and> (\<forall>s vs r. array_loop pf n s = Some (vs, r) \<longrightarrow>
      length r < length s \<and> (\<forall>m. length s - length r \<le> m \<longrightarrow> array_loop pf m s = Some (vs, r)))
 \<and> (\<forall>s ps r. object_loop pf n s = Some (ps, r) \<longrightarrow>
      length r < length s \<and> (\<forall>m. length s - length r \<le> m \<longrightarrow> object_loop pf m s = Some (ps, r)))"
proof (induction n)
  case 0
  show ?case by simp
next
  case (Suc n)
  then have S: "\<And>s v r. scan_once pf n s = Some (v, r) \<Longrightarrow> length r < length s"
    and S': "\<And>s v r m. scan_once pf n s = Some (v, r) \<Longrightarrow> length s - length r \<le> m \<Longrightarrow>
               scan_once pf m s = Some (v, r)"
    and A: "\<And>s vs r. array_loop pf n s = Some (vs, r) \<Longrightarrow> length r < length s"
    and A': "\<And>s vs r m. array_loop pf n s = Some (vs, r) \<Longrightarrow> length s - length r \<le> m \<Longrightarrow>
               array_loop pf m s = Some (vs, r)"
    and O: "\<And>s ps r. object_loop pf n s = Some (ps, r) \<Longrightarrow> length r < length s"
    and O': "\<And>s ps r m. object_loop pf n s = Some (ps, r) \<Longrightarrow> length s - length r \<le> m \<Longrightarrow>
               object_loop pf m s = Some (ps, r)"
    by blast+
  have scan: "length r < length s \<and> (\<forall>m. length s - length r \<le> m \<longrightarrow> scan_once pf m s = Some (v, r))"
    if h: "scan_once pf (Suc n) s = Some (v, r)" for s v r
  proof -
    from h obtain c r0 where s: "s = c # r0" by (cases s) auto
    consider (str) "c = CHR 0x22" | (obj) "c \<noteq> CHR 0x22" "c = CHR ''{''"
      | (arr) "c \<noteq> CHR 0x22" "c \<noteq> CHR ''{''" "c = CHR ''[''"
      | (plain) "c \<noteq> CHR 0x22" "c \<noteq> CHR ''{''" "c \<noteq> CHR ''[''" by blast
    then show ?thesis
    proof cases
      case str
      with h s obtain x where x: "scanstring r0 = Some (x, r)" and v: "v = JStr x"
        by (auto split: option.splits)
      from scanstring_shorter [OF x] have len: "length r < length s" by (simp add: s)
      have "scan_once pf m s = Some (v, r)" if "length s - length r \<le> m" for m
      proof -
        from that len obtain m' where "m = Suc m'" by (cases m) auto
        with str x v show ?thesis by (simp add: s)
      qed
      with len show ?thesis by blast
    next
      case obj
      with h s obtain d r1 where sk: "skip_ws r0 = d # r1" by (auto split: list.splits)
      from skip_ws_Cons_length [OF sk] have l1: "length r1 < length r0" .
      show ?thesis
      proof (cases "d = CHR ''}''")
        case True
        with h s obj sk have v: "v = JDict []" and r: "r = r1" by auto
        from l1 r have len: "length r < length s" by (simp add: s)
        have "scan_once pf m s = Some (v, r)" if "length s - length r \<le> m" for m
        proof -
          from that len obtain m' where "m = Suc m'" by (cases m) auto
          with obj sk True v r show ?thesis by (simp add: s)
        qed
        with len show ?thesis by blast
      next
        case False
        with h s obj sk obtain ps where q: "d = CHR 0x22"
          and ol: "object_loop pf n r1 = Some (ps, r)" and v: "v = JDict (dict_of_pairs ps)"
          by (auto split: option.splits if_splits)
        from O [OF ol] l1 have len: "length r < length s" by (simp add: s)
        have "scan_once pf m s = Some (v, r)" if "length s - length r \<le> m" for m
        proof -
          from that len obtain m' where m: "m = Suc m'" by (cases m) auto
          with that l1 have "length r1 - length r \<le> m'" by (simp add: s)
          with ol have "object_loop pf m' r1 = Some (ps, r)" by (rule O')
          with obj sk False q v show ?thesis by (simp add: s m)
        qed
        with len show ?thesis by blast
      qed
    next
      case arr
      with h s obtain d r1 where sk: "skip_ws r0 = d # r1" by (auto split: list.splits)
      from skip_ws_Cons_length [OF sk] have l1: "length r1 < length r0" .
      show ?thesis
      proof (cases "d = CHR '']''")
        case True
        with h s arr sk have v: "v = JList []" and r: "r = r1" by auto
        from l1 r have len: "length r < length s" by (simp add: s)
        have "scan_once pf m s = Some (v, r)" if "length s - length r \<le> m" for m
        proof -
          from that len obtain m' where "m = Suc m'" by (cases m) auto
          with arr sk True v r show ?thesis by (simp add: s)
        qed
        with len show ?thesis by blast
      next
        case False
        with h s arr sk obtain vs where al: "array_loop pf n (d # r1) = Some (vs, r)"
          and v: "v = JList vs"
          by (auto split: option.splits)
        from A [OF al] l1 have len: "length r < length s" by (simp add: s)
        have "scan_once pf m s = Some (v, r)" if "length s - length r \<le> m" for m
        proof -
          from that len obtain m' where m: "m = Suc m'" by (cases m) auto
          with that l1 have "length (d # r1) - length r \<le> m'" by (simp add: s)
          with al have "array_loop pf m' (d # r1) = Some (vs, r)" by (rule A')
          with arr sk False v show ?thesis by (simp add: s m)
        qed
        with len show ?thesis by blast
      qed
    next
      case plain
      with h s have p: "scan_plain pf s = Some (v, r)" by simp
      from scan_plain_shorter [OF p] have len: "length r < length s" .
      have "scan_once pf m s = Some (v, r)" if "length s - length r \<le> m" for m
      proof -
        from that len obtain m' where "m = Suc m'" by (cases m) auto
        with plain p show ?thesis by (simp add: s)
      qed
      with len show ?thesis by blast
    qed
  qed
  have array: "length r < length s \<and> (\<forall>m. length s - length r \<le> m \<longrightarrow> array_loop pf m s = Some (vs, r))"
    if h: "array_loop pf (Suc n) s = Some (vs, r)" for s vs r
  proof -
    from h obtain v r0 where so: "scan_once pf n s = Some (v, r0)" by (auto split: option.splits)
    from S [OF so] have l0: "length r0 < length s" .
    from h so obtain c r1 where sk: "skip_ws r0 = c # r1" by (auto split: list.splits)
    from skip_ws_Cons_length [OF sk] have l1: "length r1 < length r0" .
    show ?thesis
    proof (cases "c = CHR '']''")
      case True
      with h so sk have vs: "vs = [v]" and r: "r = r1" by auto
      from l0 l1 r have len: "length r < length s" by simp
      have "array_loop pf m s = Some (vs, r)" if "length s - length r \<le> m" for m
      proof -
        from that len obtain m' where m: "m = Suc m'" by (cases m) auto
        with that l0 l1 r have "length s - length r0 \<le> m'" by simp
        with so have "scan_once pf m' s = Some (v, r0)" by (rule S')
        with sk True vs r show ?thesis by (simp add: m)
      qed
      with len show ?thesis by blast
    next
      case False
      with h so sk obtain vs' where comma: "c = CHR '',''"
        and al: "array_loop pf n (skip_ws r1) = Some (vs', r)" and vs: "vs = v # vs'"
        by (auto split: option.splits if_splits)
      from A [OF al] skip_ws_length [of r1] have l2: "length r < length r1" by simp
      with l0 l1 have len: "length r < length s" by simp
      have "array_loop pf m s = Some (vs, r)" if "length s - length r \<le> m" for m
      proof -
        from that len obtain m' where m: "m = Suc m'" by (cases m) auto
        with that l0 l1 l2 have "length s - length r0 \<le> m'" by simp
        with so have 1: "scan_once pf m' s = Some (v, r0)" by (rule S')
        from m that l0 l1 l2 skip_ws_length [of r1]
        have "length (skip_ws r1) - length r \<le> m'" by simp
        with al have 2: "array_loop pf m' (skip_ws r1) = Some (vs', r)" by (rule A')
        from 1 2 sk False comma vs show ?thesis by (simp add: m)
      qed
      with len show ?thesis by blast
    qed
  qed
  have object: "length r < length s \<and> (\<forall>m. length s - length r \<le> m \<longrightarrow> object_loop pf m s = Some (ps, r))"
    if h: "object_loop pf (Suc n) s = Some (ps, r)" for s ps r
  proof -
    from h obtain key r0 where ss: "scanstring s = Some (key, r0)"
      by (auto split: option.splits simp del: scanstring.simps)
    from scanstring_shorter [OF ss] have l0: "length r0 < length s" .
    from h ss obtain c r1 where sk: "skip_ws r0 = c # r1"
      by (auto split: list.splits simp del: scanstring.simps)
    from skip_ws_Cons_length [OF sk] have l1: "length r1 < length r0" .
    from h ss sk have colon: "c = CHR '':''"
      by (auto split: if_splits simp del: scanstring.simps)
    from h ss sk colon obtain v r2 where so: "scan_once pf n (skip_ws r1) = Some (v, r2)"
      by (auto split: option.splits simp del: scanstring.simps)
    from S [OF so] skip_ws_length [of r1] have l2: "length r2 < length r1" by simp
    from h ss sk colon so obtain d r3 where sk2: "skip_ws r2 = d # r3"
      by (auto split: list.splits simp del: scanstring.simps)
    from skip_ws_Cons_length [OF sk2] have l3: "length r3 < length r2" .
    show ?thesis
    proof (cases "d = CHR ''}''")
      case True
      with h ss sk colon so sk2 have ps: "ps = [(key, v)]" and r: "r = r3"
        by (auto simp del: scanstring.simps)
      from l0 l1 l2 l3 r have len: "length r < length s" by simp
      have "object_loop pf m s = Some (ps, r)" if "length s - length r \<le> m" for m
      proof -
        from that len obtain m' where m: "m = Suc m'" by (cases m) auto
        from m that l0 l1 l2 l3 r skip_ws_length [of r1]
        have "length (skip_ws r1) - length r2 \<le> m'" by simp
        with so have "scan_once pf m' (skip_ws r1) = Some (v, r2)" by (rule S')
        with ss sk colon sk2 True ps r show ?thesis by (simp add: m del: scanstring.simps)
      qed
      with len show ?thesis by blast
    next
      case False
      with h ss sk colon so sk2 obtain q r4 ps' where comma: "d = CHR '',''"
        and sk3: "skip_ws r3 = q # r4" and quote: "q = CHR 0x22"
        and ol: "object_loop pf n r4 = Some (ps', r)" and ps: "ps = (key, v) # ps'"
        by (auto split: option.splits if_splits list.splits simp del: scanstring.simps)
      from skip_ws_Cons_length [OF sk3] have l4: "length r4 < length r3" .
      from O [OF ol] have l5: "length r < length r4" .
      from l0 l1 l2 l3 l4 l5 have len: "length r < length s" by simp
      have "object_loop pf m s = Some (ps, r)" if "length s - length r \<le> m" for m
      proof -
        from that len obtain m' where m: "m = Suc m'" by (cases m) auto
        from m that l0 l1 l2 l3 l4 l5 skip_ws_length [of r1]
        have "length (skip_ws r1) - length r2 \<le> m'" by simp
        with so have 1: "scan_once pf m' (skip_ws r1) = Some (v, r2)" by (rule S')
        from m that l0 l1 l2 l3 l4 l5 have "length r4 - length r \<le> m'" by simp
        with ol have 2: "object_loop pf m' r4 = Some (ps', r)" by (rule O')
        from 1 2 ss sk colon sk2 False comma sk3 quote ps show ?thesis
          by (simp add: m del: scanstring.simps)
      qed
      with len show ?thesis by blast
    qed
  qed
  from scan array object show ?case by blast
qed

text \<open>If the decoder reads a value with white space only after it, under any bound,
  then \<open>json_loads\<close> gives that value: its bound is never what makes it fail.\<close>

lemma json_loads_bound:
  assumes "scan_once pf n (skip_ws s) = Some (v, r)" and "skip_ws r = []"
  shows "json_loads pf s = Some v"
proof -
  from bound_enough [of pf n] assms(1)
  have "\<forall>m. length (skip_ws s) - length r \<le> m \<longrightarrow> scan_once pf m (skip_ws s) = Some (v, r)"
    by blast
  moreover have "length (skip_ws s) - length r \<le> Suc (length s)"
    using skip_ws_length [of s] by simp
  ultimately have "scan_once pf (Suc (length s)) (skip_ws s) = Some (v, r)" by blast
  with assms(2) show ?thesis by (simp add: json_loads_def)
qed

subsection \<open>The text of a document parses back\<close>

text \<open>Strings: the decoder undoes each escape of the encoder.\<close>

lemma hex_value_hex_digit: "n < 16 \<Longrightarrow> hex_value (hex_digit n) = Some n"
  by (auto simp: hex_value_def hex_digit_def Let_def)

lemma hex4_value_hex4:
  assumes "n < 256"
  obtains a b x d where "hex4 n = [a, b, x, d]" "hex4_value a b x d = Some n"
proof
  from assms have z: "n div 4096 mod 16 = 0" "n div 256 mod 16 = 0" "n div 16 mod 16 = n div 16"
    by auto
  show "hex4 n = [hex_digit 0, hex_digit 0, hex_digit (n div 16), hex_digit (n mod 16)]"
    by (simp add: hex4_def z)
  have "hex_value (hex_digit 0) = Some 0" by (simp add: hex_value_hex_digit)
  moreover have "hex_value (hex_digit (n div 16)) = Some (n div 16)"
    using assms by (intro hex_value_hex_digit) auto
  moreover have "hex_value (hex_digit (n mod 16)) = Some (n mod 16)"
    by (intro hex_value_hex_digit) auto
  ultimately show "hex4_value (hex_digit 0) (hex_digit 0) (hex_digit (n div 16)) (hex_digit (n mod 16))
      = Some n"
    by (simp add: hex4_value_def)
qed

lemma scanstring_escape_char:
  "scanstring (escape_char c @ t) = cons_result c (scanstring t)"
proof -
  have lt: "(of_char c :: nat) < 256" by simp
  consider (q) "c = CHR 0x22" | (b) "c = CHR 0x5C" | (n) "c = CHR 0x0A" | (r) "c = CHR 0x0D"
    | (t) "c = CHR 0x09" | (bs) "c = CHR 0x08" | (f) "c = CHR 0x0C"
    | (plain) "c \<noteq> CHR 0x22" "c \<noteq> CHR 0x5C" "32 \<le> (of_char c :: nat)" "(of_char c :: nat) \<le> 126"
    | (u) "c \<noteq> CHR 0x22" "c \<noteq> CHR 0x5C" "c \<noteq> CHR 0x0A" "c \<noteq> CHR 0x0D" "c \<noteq> CHR 0x09"
          "c \<noteq> CHR 0x08" "c \<noteq> CHR 0x0C" "\<not> (32 \<le> (of_char c :: nat) \<and> (of_char c :: nat) \<le> 126)"
    by blast
  then show ?thesis
  proof cases
    case plain
    then show ?thesis by (auto simp: escape_char_def)
  next
    case u
    then have e: "escape_char c = [CHR 0x5C, CHR ''u''] @ hex4 (of_char c)"
      by (simp add: escape_char_def)
    from lt obtain a b x d where h: "hex4 (of_char c) = [a, b, x, d]"
      and v: "hex4_value a b x d = Some (of_char c)"
      by (rule hex4_value_hex4)
    show ?thesis
      unfolding e h using lt by (simp add: v)
  qed (simp_all add: escape_char_def unescape_def)
qed

lemma scanstring_encoded:
  "scanstring (concat (map escape_char s) @ CHR 0x22 # rest) = Some (s, rest)"
  by (induction s) (simp_all add: scanstring_escape_char cons_result_def del: scanstring.simps, simp)

text \<open>Integers: the decimal text of an integer is matched whole and read back.\<close>

lemma ascii_digit_char_of: "d < 10 \<Longrightarrow> ascii_digit (char_of (48 + d :: nat))"
  by (simp add: ascii_digit_def)

lemma char_of_digit_not_zero: "0 < d \<Longrightarrow> d < 10 \<Longrightarrow> char_of (48 + d :: nat) \<noteq> CHR ''0''"
proof
  assume d: "0 < d" "d < 10" and "char_of (48 + d) = CHR ''0''"
  then have "(of_char (char_of (48 + d)) :: nat) = of_char (CHR ''0'')" by simp
  with d show False by simp
qed

lemma nat_str_digits: "nat_str n \<noteq> [] \<and> list_all ascii_digit (nat_str n)"
proof (induction n rule: nat_str.induct)
  case (1 n)
  show ?case
  proof (cases "n < 10")
    case True
    then show ?thesis by (subst (1 2) nat_str.simps) (simp add: ascii_digit_char_of)
  next
    case False
    with 1 show ?thesis by (subst (1 2) nat_str.simps) (simp add: ascii_digit_char_of)
  qed
qed

lemma decimal_snoc: "decimal (ds @ [c]) = 10 * decimal ds + (of_char c - 48)"
  by (simp add: decimal_def)

lemma decimal_nat_str: "decimal (nat_str n) = n"
proof (induction n rule: nat_str.induct)
  case (1 n)
  show ?case
  proof (cases "n < 10")
    case True
    then show ?thesis by (subst nat_str.simps) (simp add: decimal_def)
  next
    case False
    with 1 have "decimal (nat_str (n div 10)) = n div 10" by simp
    with False show ?thesis by (subst nat_str.simps) (simp add: decimal_snoc)
  qed
qed

lemma hd_nat_str: "0 < n \<Longrightarrow> hd (nat_str n) \<noteq> CHR ''0''"
proof (induction n rule: nat_str.induct)
  case (1 n)
  show ?case
  proof (cases "n < 10")
    case True
    with 1(2) show ?thesis by (subst nat_str.simps) (simp add: char_of_digit_not_zero)
  next
    case False
    with 1 have "hd (nat_str (n div 10)) \<noteq> CHR ''0''" by simp
    with False nat_str_digits [of "n div 10"] show ?thesis
      by (subst nat_str.simps) simp
  qed
qed

lemma digit_run_digits: "ds \<noteq> [] \<Longrightarrow> list_all ascii_digit ds \<Longrightarrow> digit_run ds"
proof (induction ds rule: digit_run.induct)
  case (3 c d r)
  then have "d \<noteq> CHR ''_''" by (auto simp: ascii_digit_def)
  with 3 show ?case by simp
qed simp_all

lemma digits_no_underscore: "list_all ascii_digit ds \<Longrightarrow> filter (\<lambda>c. c \<noteq> CHR ''_'') ds = ds"
  by (induction ds) (auto simp: ascii_digit_def)

lemma int_char_plain:
  assumes "int_char c"
  shows "\<not> c_space c" and "\<not> (127 \<le> (of_char c :: nat) \<and> isspace c)"
  using assms by (auto simp: int_char_def ascii_digit_def c_space_def)

lemma int_str_chars: "int_str i \<noteq> [] \<and> list_all int_char (int_str i)"
  using nat_str_digits [of "nat i"] nat_str_digits [of "nat (- i)"]
  by (auto simp: int_str_def int_char_def list_all_iff)

lemma strip_plain:
  assumes "s \<noteq> []" "list_all int_char s"
  shows "rev (dropWhile c_space (rev (dropWhile c_space s))) = s"
proof -
  from assms obtain c r where s: "s = c # r" by (cases s) auto
  with assms have "\<not> c_space c" by (simp add: int_char_plain)
  with s have 1: "dropWhile c_space s = s" by simp
  from assms have "\<not> c_space (last s)" by (auto simp: list_all_iff int_char_plain)
  with assms(1) have "dropWhile c_space (rev s) = rev s"
    by (cases s rule: rev_cases) auto
  with 1 show ?thesis by simp
qed

lemma py_int_int_str: "py_int (int_str i) = Some i"
proof -
  let ?f = "\<lambda>c. if 127 \<le> (of_char c :: nat) \<and> isspace c then CHR '' '' else c"
  from int_str_chars [of i] have ne: "int_str i \<noteq> []" and ch: "list_all int_char (int_str i)"
    by auto
  from ch have m: "map ?f (int_str i) = int_str i"
    by (intro map_idI) (auto simp: list_all_iff int_char_plain)
  note u = strip_plain [OF ne ch]
  show ?thesis
  proof (cases "i < 0")
    case True
    let ?ds = "nat_str (nat (- i))"
    from True have s: "int_str i = CHR ''-'' # ?ds" by (simp add: int_str_def)
    from nat_str_digits [of "nat (- i)"] have d: "?ds \<noteq> []" "list_all ascii_digit ?ds" by auto
    from True show ?thesis
      unfolding py_int_def m Let_def u
      by (simp add: s digit_run_digits [OF d] digits_no_underscore [OF d(2)] decimal_nat_str)
  next
    case False
    let ?ds = "nat_str (nat i)"
    from False have s: "int_str i = ?ds" by (simp add: int_str_def)
    from nat_str_digits [of "nat i"] have d: "?ds \<noteq> []" "list_all ascii_digit ?ds" by auto
    then obtain c r where cr: "?ds = c # r" by (cases ?ds) auto
    with d have "ascii_digit c" by simp
    then have "c \<noteq> CHR ''-''" "c \<noteq> CHR ''+''" by (auto simp: ascii_digit_def)
    with cr have h: "hd ?ds \<noteq> CHR ''-''" "hd ?ds \<noteq> CHR ''+''" by auto
    from False show ?thesis
      unfolding py_int_def m Let_def u
      by (simp add: s h digit_run_digits [OF d] digits_no_underscore [OF d(2)] decimal_nat_str)
  qed
qed

lemma delimited_no_digit: "delimited rest \<Longrightarrow> takeWhile ascii_digit rest = [] \<and> dropWhile ascii_digit rest = rest"
  by (cases rest) (auto simp: delimited_def ascii_digit_def)

lemma match_integer_nat_str:
  assumes "delimited rest"
  shows "match_integer (nat_str n @ rest) = Some (nat_str n, rest)"
proof -
  from nat_str_digits [of n] obtain c r where cr: "nat_str n = c # r"
    and c: "ascii_digit c" and r: "list_all ascii_digit r"
    by (cases "nat_str n") auto
  from c have nm: "c \<noteq> CHR ''-''" by (auto simp: ascii_digit_def)
  show ?thesis
  proof (cases "n = 0")
    case True
    have "nat_str 0 = ''0''" by code_simp
    with True have "nat_str n = ''0''" by simp
    then show ?thesis by (simp add: match_integer_def)
  next
    case False
    with hd_nat_str [of n] cr have "c \<noteq> CHR ''0''" by simp
    moreover from r delimited_no_digit [OF assms]
    have "takeWhile ascii_digit (r @ rest) = r" "dropWhile ascii_digit (r @ rest) = rest"
      by (simp_all add: list_all_iff takeWhile_append2 dropWhile_append2)
    ultimately show ?thesis
      using c nm by (simp add: match_integer_def cr)
  qed
qed

lemma match_integer_int_str:
  assumes "delimited rest"
  shows "match_integer (int_str i @ rest) = Some (int_str i, rest)"
proof (cases "i < 0")
  case True
  let ?n = "nat (- i)"
  from True have s: "int_str i = CHR ''-'' # nat_str ?n" by (simp add: int_str_def)
  from True have pos: "0 < ?n" by simp
  from nat_str_digits [of ?n] obtain c r where cr: "nat_str ?n = c # r"
    and c: "ascii_digit c" and r: "list_all ascii_digit r"
    by (cases "nat_str ?n") auto
  from hd_nat_str [OF pos] cr have "c \<noteq> CHR ''0''" by simp
  moreover from r delimited_no_digit [OF assms]
  have "takeWhile ascii_digit (r @ rest) = r" "dropWhile ascii_digit (r @ rest) = rest"
    by (simp_all add: list_all_iff takeWhile_append2 dropWhile_append2)
  ultimately show ?thesis
    using c by (simp add: match_integer_def s cr)
next
  case False
  then have "int_str i = nat_str (nat i)" by (simp add: int_str_def)
  with assms show ?thesis by (simp add: match_integer_nat_str)
qed

lemma match_frac_delimited: "delimited rest \<Longrightarrow> match_frac rest = ([], rest)"
  by (auto simp: match_frac_def delimited_def split: list.splits)

lemma match_exp_delimited: "delimited rest \<Longrightarrow> match_exp rest = ([], rest)"
  by (auto simp: match_exp_def delimited_def split: list.splits)

lemma match_number_int_str:
  "delimited rest \<Longrightarrow> match_number pf (int_str i @ rest) = Some (JInt i, rest)"
  by (simp add: match_number_def match_integer_int_str match_frac_delimited match_exp_delimited
      py_int_int_str)

lemma int_str_head:
  obtains c r where "int_str i = c # r" "int_char c"
  using int_str_chars [of i] by (cases "int_str i") auto

lemma scan_plain_int_str:
  assumes "delimited rest"
  shows "scan_plain pf (int_str i @ rest) = Some (JInt i, rest)"
proof -
  obtain c r where cr: "int_str i = c # r" and c: "int_char c" by (rule int_str_head)
  from c have "c \<noteq> CHR ''n''" "c \<noteq> CHR ''t''" "c \<noteq> CHR ''f''"
    by (auto simp: int_char_def ascii_digit_def)
  then have "\<not> startswith (int_str i @ rest) ''null''" "\<not> startswith (int_str i @ rest) ''true''"
    "\<not> startswith (int_str i @ rest) ''false''"
    by (simp_all add: cr)
  with match_number_int_str [OF assms, of pf i] show ?thesis
    by (simp add: scan_plain_def)
qed

text \<open>White space and the first character of a value.\<close>

lemma skip_ws_indent: "skip_ws (newline_indent k @ t) = skip_ws t"
proof -
  have "skip_ws (replicate j (CHR '' '') @ t) = skip_ws t" for j
    by (induction j) (simp_all add: skip_ws_def ws_char_def)
  then show ?thesis by (simp add: newline_indent_def skip_ws_def ws_char_def)
qed

lemma encode_head_ex: "document v \<Longrightarrow> \<exists>c r. encode l v = c # r \<and> opener c"
proof (cases v)
  case (JInt i)
  obtain c r where "int_str i = c # r" "int_char c" by (rule int_str_head)
  with JInt show ?thesis by (simp add: opener_def)
qed (auto simp: opener_def encode_str_def)

lemma encode_head:
  assumes "document v"
  obtains c r where "encode l v = c # r" "opener c"
  using encode_head_ex [OF assms] by blast

lemma opener_plain:
  assumes "opener c"
  shows "\<not> ws_char c" "c \<noteq> CHR '']''" "c \<noteq> CHR ''}''" "c \<noteq> CHR '',''" "c \<noteq> CHR '':''"
  using assms by (auto simp: opener_def int_char_def ascii_digit_def ws_char_def)

lemma skip_ws_opener: "opener c \<Longrightarrow> skip_ws (c # r) = c # r"
  by (simp add: skip_ws_def opener_plain)

text \<open>The loops over the elements of a list and the pairs of a dict.\<close>

lemma join_Cons: "xs \<noteq> [] \<Longrightarrow> join s (x # xs) = x @ s @ join s xs"
  by (cases xs) simp_all

lemma delimited_simps:
  "delimited (newline_indent l @ t)" "delimited (CHR '','' # t)" "delimited []"
  by (simp_all add: delimited_def newline_indent_def)

lemma skip_ws_closing:
  "skip_ws (newline_indent l @ CHR '']'' # t) = CHR '']'' # t"
  "skip_ws (newline_indent l @ CHR ''}'' # t) = CHR ''}'' # t"
  by (simp_all add: skip_ws_indent) (simp_all add: skip_ws_def ws_char_def)

lemma skip_ws_comma: "skip_ws (CHR '','' # t) = CHR '','' # t"
  by (simp add: skip_ws_def ws_char_def)

lemma skip_ws_colon: "skip_ws (CHR '':'' # t) = CHR '':'' # t"
  by (simp add: skip_ws_def ws_char_def)

lemma skip_ws_blank: "skip_ws (CHR '' '' # t) = skip_ws t"
  by (simp add: skip_ws_def ws_char_def)

lemma array_loop_encoded:
  assumes "xs \<noteq> []"
    and "\<And>x n rest. x \<in> set xs \<Longrightarrow> length (encode k x) \<le> n \<Longrightarrow> delimited rest \<Longrightarrow>
           scan_once pf n (encode k x @ rest) = Some (x, rest)"
    and "list_all document xs"
    and "length (join (CHR '','' # newline_indent k) (map (encode k) xs)) < n"
  shows "array_loop pf n (join (CHR '','' # newline_indent k) (map (encode k) xs)
           @ newline_indent l @ CHR '']'' # rest) = Some (xs, rest)"
  using assms
proof (induction xs arbitrary: n rule: list_nonempty_induct)
  case (single x)
  let ?R = "newline_indent l @ CHR '']'' # rest"
  from single.prems(3) obtain m where n: "n = Suc m" and m: "length (encode k x) \<le> m"
    by (cases n) auto
  have "scan_once pf m (encode k x @ ?R) = Some (x, ?R)"
    using m by (intro single.prems(1)) (simp_all add: delimited_simps)
  then show ?case
    by (simp add: n skip_ws_closing)
next
  case (cons x xs)
  let ?s = "CHR '','' # newline_indent k"
  let ?J = "join ?s (map (encode k) xs)"
  let ?R = "newline_indent l @ CHR '']'' # rest"
  from cons.hyps have j: "join ?s (map (encode k) (x # xs)) = encode k x @ ?s @ ?J"
    by (simp add: join_Cons)
  from cons.prems(2) have dx: "document x" and dxs: "list_all document xs" by simp_all
  obtain c r where cr: "encode k x = c # r" using dx by (rule encode_head)
  from cons.hyps obtain y ys where xs: "xs = y # ys" by (cases xs) auto
  with dxs have "document y" by simp
  then obtain d q where dq: "encode k y = d # q" and d: "opener d" by (rule encode_head)
  have "?J = d # q @ (if ys = [] then [] else ?s @ join ?s (map (encode k) ys))"
    by (cases ys) (simp_all add: xs dq)
  then obtain q' where J: "?J = d # q'" by blast
  from cons.prems(3) obtain m where n: "n = Suc m" and m: "length (encode k x) \<le> m"
    and m': "length ?J < m"
    unfolding j by (cases n) (auto simp: cr)
  have 1: "scan_once pf m (encode k x @ (CHR '','' # newline_indent k @ ?J @ ?R))
      = Some (x, CHR '','' # newline_indent k @ ?J @ ?R)"
    using m by (intro cons.prems(1)) (simp_all add: delimited_simps)
  have 2: "skip_ws (newline_indent k @ ?J @ ?R) = ?J @ ?R"
    by (simp add: skip_ws_indent) (simp add: J skip_ws_opener [OF d])
  have 3: "array_loop pf m (?J @ ?R) = Some (xs, rest)"
    using cons.prems(1) dxs m' by (intro cons.IH) simp_all
  show ?case
    unfolding j n by (simp add: 1 skip_ws_comma 2 3)
qed

lemma object_loop_encoded:
  assumes "kvs \<noteq> []"
    and "\<And>kv n rest. kv \<in> set kvs \<Longrightarrow> length (encode k (snd kv)) \<le> n \<Longrightarrow> delimited rest \<Longrightarrow>
           scan_once pf n (encode k (snd kv) @ rest) = Some (snd kv, rest)"
    and "list_all (\<lambda>kv. document (snd kv)) kvs"
    and "length (join (CHR '','' # newline_indent k)
                   (map (\<lambda>kv. encode_str (fst kv) @ CHR '':'' # CHR '' '' # encode k (snd kv)) kvs)) < n"
  shows "object_loop pf n
           (tl (join (CHR '','' # newline_indent k)
                  (map (\<lambda>kv. encode_str (fst kv) @ CHR '':'' # CHR '' '' # encode k (snd kv)) kvs))
            @ newline_indent l @ CHR ''}'' # rest) = Some (kvs, rest)"
  using assms
proof (induction kvs arbitrary: n rule: list_nonempty_induct)
  case (single kv)
  let ?R = "newline_indent l @ CHR ''}'' # rest"
  let ?v = "encode k (snd kv)"
  from single.prems(2) have "document (snd kv)" by simp
  then obtain c r where cr: "?v = c # r" and c: "opener c" by (rule encode_head)
  from single.prems(3) obtain m where n: "n = Suc m" and m: "length ?v \<le> m"
    by (cases n) (auto simp: encode_str_def)
  have 1: "scanstring (concat (map escape_char (fst kv)) @ CHR 0x22 # CHR '':'' # CHR '' '' # ?v @ ?R)
      = Some (fst kv, CHR '':'' # CHR '' '' # ?v @ ?R)"
    by (rule scanstring_encoded)
  have 2: "skip_ws (CHR '' '' # ?v @ ?R) = ?v @ ?R"
    by (simp add: skip_ws_blank cr skip_ws_opener [OF c])
  have 3: "scan_once pf m (?v @ ?R) = Some (snd kv, ?R)"
    using m by (intro single.prems(1)) (simp_all add: delimited_simps)
  show ?case
    by (simp add: n encode_str_def 1 skip_ws_colon 2 3 skip_ws_closing
        del: scanstring.simps)
next
  case (cons kv kvs)
  let ?s = "CHR '','' # newline_indent k"
  let ?e = "\<lambda>kv. encode_str (fst kv) @ CHR '':'' # CHR '' '' # encode k (snd kv)"
  let ?J = "join ?s (map ?e kvs)"
  let ?R = "newline_indent l @ CHR ''}'' # rest"
  let ?v = "encode k (snd kv)"
  from cons.hyps have j: "join ?s (map ?e (kv # kvs)) = ?e kv @ ?s @ ?J"
    by (simp add: join_Cons)
  from cons.prems(2) have dv: "document (snd kv)"
    and dkvs: "list_all (\<lambda>kv. document (snd kv)) kvs" by simp_all
  from dv obtain c r where cr: "?v = c # r" and c: "opener c" by (rule encode_head)
  from cons.hyps obtain y ys where kvs: "kvs = y # ys" by (cases kvs) auto
  have J: "?J = CHR 0x22 # tl ?J"
    by (cases ys) (simp_all add: kvs encode_str_def)
  from cons.prems(3) obtain m where n: "n = Suc m" and m: "length ?v \<le> m"
    and m': "length ?J < m"
    unfolding j by (cases n) (auto simp: encode_str_def)
  let ?T = "CHR '','' # newline_indent k @ ?J @ ?R"
  have 1: "scanstring (concat (map escape_char (fst kv)) @ CHR 0x22 # CHR '':'' # CHR '' '' # ?v @ ?T)
      = Some (fst kv, CHR '':'' # CHR '' '' # ?v @ ?T)"
    by (rule scanstring_encoded)
  have 2: "skip_ws (CHR '' '' # ?v @ ?T) = ?v @ ?T"
    by (simp add: skip_ws_blank cr skip_ws_opener [OF c])
  have 3: "scan_once pf m (?v @ ?T) = Some (snd kv, ?T)"
    using m by (intro cons.prems(1)) (simp_all add: delimited_simps)
  have "skip_ws (newline_indent k @ ?J @ ?R) = skip_ws (CHR 0x22 # tl ?J @ ?R)"
    by (subst J) (simp add: skip_ws_indent)
  then have 4: "skip_ws (newline_indent k @ ?J @ ?R) = CHR 0x22 # tl ?J @ ?R"
    by (simp add: skip_ws_def ws_char_def)
  have 5: "object_loop pf m (tl ?J @ ?R) = Some (kvs, rest)"
    using cons.prems(1) dkvs m' by (intro cons.IH) simp_all
  have t: "tl (join ?s (map ?e (kv # kvs))) @ ?R
      = concat (map escape_char (fst kv)) @ CHR 0x22 # CHR '':'' # CHR '' '' # ?v @ ?T"
    unfolding j by (simp add: encode_str_def)
  show ?case
    unfolding t n
    by (simp add: 1 skip_ws_colon 2 3 skip_ws_comma 4 5 del: scanstring.simps)
qed

lemma update_fresh: "k \<notin> fst ` set ps \<Longrightarrow> AList.update k v ps = ps @ [(k, v)]"
  by (induction ps) auto

lemma foldl_update_distinct:
  "distinct (map fst (acc @ kvs)) \<Longrightarrow>
   foldl (\<lambda>d kv. AList.update (fst kv) (snd kv) d) acc kvs = acc @ kvs"
proof (induction kvs arbitrary: acc)
  case Nil
  then show ?case by simp
next
  case (Cons kv kvs)
  from Cons.prems have "fst kv \<notin> fst ` set acc" by auto
  then have "AList.update (fst kv) (snd kv) acc = acc @ [kv]" by (simp add: update_fresh)
  moreover from Cons.prems have "distinct (map fst ((acc @ [kv]) @ kvs))" by simp
  ultimately show ?case using Cons.IH [of "acc @ [kv]"] by simp
qed

lemma dict_of_pairs_distinct: "distinct (map fst kvs) \<Longrightarrow> dict_of_pairs kvs = kvs"
  using foldl_update_distinct [of "[]" kvs] by (simp add: dict_of_pairs_def)

text \<open>A value is read back from its text when the bound is at least the length of
  the text and a delimiter follows.\<close>

lemma scan_once_encoded:
  "document v \<Longrightarrow> length (encode l v) \<le> n \<Longrightarrow> delimited rest \<Longrightarrow>
   scan_once pf n (encode l v @ rest) = Some (v, rest)"
proof (induction v arbitrary: l n rest)
  case JNull
  then obtain m where "n = Suc m" by (cases n) auto
  then show ?case by (simp add: scan_plain_def)
next
  case (JBool b)
  then obtain m where "n = Suc m" by (cases n; cases b) auto
  then show ?case by (cases b) (simp_all add: scan_plain_def)
next
  case (JInt i)
  obtain c r where cr: "int_str i = c # r" and c: "int_char c" by (rule int_str_head)
  from JInt.prems(2) cr obtain m where n: "n = Suc m" by (cases n) auto
  from c have "c \<noteq> CHR 0x22" "c \<noteq> CHR ''{''" "c \<noteq> CHR ''[''"
    by (auto simp: int_char_def ascii_digit_def)
  then have "scan_once pf (Suc m) (int_str i @ rest) = scan_plain pf (int_str i @ rest)"
    by (simp add: cr)
  with JInt.prems(3) show ?case by (simp add: n scan_plain_int_str)
next
  case (JFloat r)
  then show ?case by simp
next
  case (JStr s)
  then obtain m where "n = Suc m" by (cases n) (auto simp: encode_str_def)
  then show ?case by (simp add: encode_str_def scanstring_encoded del: scanstring.simps)
next
  case (JList xs)
  show ?case
  proof (cases "xs = []")
    case True
    with JList.prems(2) obtain m where "n = Suc m" by (cases n) auto
    with True show ?thesis by (simp add: skip_ws_def ws_char_def)
  next
    case False
    let ?s = "CHR '','' # newline_indent (Suc l)"
    let ?J = "join ?s (map (encode (Suc l)) xs)"
    let ?R = "newline_indent l @ CHR '']'' # rest"
    from False have e: "encode l (JList xs) @ rest = CHR ''['' # newline_indent (Suc l) @ ?J @ ?R"
      by simp
    from JList.prems(2) False obtain m where n: "n = Suc m" and m: "length ?J < m"
      by (cases n) auto
    from JList.prems(1) have docs: "list_all document xs" by simp
    from False obtain y ys where xs: "xs = y # ys" by (cases xs) auto
    with docs have "document y" by simp
    then obtain d q where dq: "encode (Suc l) y = d # q" and d: "opener d" by (rule encode_head)
    have Jd: "?J = d # tl ?J" by (cases ys) (simp_all add: xs dq)
    then have sk: "skip_ws (newline_indent (Suc l) @ ?J @ ?R) = d # tl ?J @ ?R"
      by (simp add: skip_ws_indent) (metis append_Cons skip_ws_opener [OF d])
    have again: "d # tl ?J @ ?R = ?J @ ?R" using Jd by (metis append_Cons)
    have loop: "array_loop pf m (?J @ ?R) = Some (xs, rest)"
    proof (rule array_loop_encoded [OF False _ docs m])
      fix x n' rest'
      assume "x \<in> set xs" "length (encode (Suc l) x) \<le> n'" "delimited rest'"
      moreover from this(1) docs have "document x" by (simp add: list_all_iff)
      ultimately show "scan_once pf n' (encode (Suc l) x @ rest') = Some (x, rest')"
        by (intro JList.IH)
    qed
    from d have "d \<noteq> CHR '']''" by (rule opener_plain)
    then show ?thesis
      unfolding e n by (simp add: sk) (simp add: again loop)
  qed
next
  case (JDict kvs)
  show ?case
  proof (cases "kvs = []")
    case True
    with JDict.prems(2) obtain m where "n = Suc m" by (cases n) auto
    with True show ?thesis by (simp add: skip_ws_def ws_char_def)
  next
    case False
    let ?s = "CHR '','' # newline_indent (Suc l)"
    let ?e = "\<lambda>kv. encode_str (fst kv) @ CHR '':'' # CHR '' '' # encode (Suc l) (snd kv)"
    let ?J = "join ?s (map ?e kvs)"
    let ?R = "newline_indent l @ CHR ''}'' # rest"
    from False have e: "encode l (JDict kvs) @ rest = CHR ''{'' # newline_indent (Suc l) @ ?J @ ?R"
      by simp
    from JDict.prems(2) False obtain m where n: "n = Suc m" and m: "length ?J < m"
      by (cases n) auto
    from JDict.prems(1) have docs: "list_all (\<lambda>kv. document (snd kv)) kvs"
      and dist: "distinct (map fst kvs)" by simp_all
    from False obtain y ys where kvs: "kvs = y # ys" by (cases kvs) auto
    have J: "?J = CHR 0x22 # tl ?J" by (cases ys) (simp_all add: kvs encode_str_def)
    have "skip_ws (newline_indent (Suc l) @ ?J @ ?R) = skip_ws (CHR 0x22 # tl ?J @ ?R)"
      by (subst J) (simp add: skip_ws_indent)
    then have sk: "skip_ws (newline_indent (Suc l) @ ?J @ ?R) = CHR 0x22 # tl ?J @ ?R"
      by (simp add: skip_ws_def ws_char_def)
    have loop: "object_loop pf m (tl ?J @ ?R) = Some (kvs, rest)"
    proof (rule object_loop_encoded [OF False _ docs m])
      fix kv n' rest'
      assume kv: "kv \<in> set kvs" and "length (encode (Suc l) (snd kv)) \<le> n'" "delimited rest'"
      moreover from kv docs have "document (snd kv)" by (simp add: list_all_iff)
      moreover have "snd kv \<in> Basic_BNFs.snds kv" by (cases kv) simp
      ultimately show "scan_once pf n' (encode (Suc l) (snd kv) @ rest') = Some (snd kv, rest')"
        using kv by (intro JDict.IH)
    qed
    show ?thesis
      unfolding e n by (simp add: sk loop dict_of_pairs_distinct [OF dist])
  qed
qed

text \<open>
  Claim C4 (round trip): for every Document \<open>d\<close>, parsing the text that the save writes
  for \<open>d\<close> gives \<open>d\<close> again: the same keys in the same order, the same nesting, the same
  scalars of the same types. This holds whatever \<^verbatim>\<open>float\<close> does (\<open>pf\<close>), as a Document
  has no float.
\<close>

theorem serialized_document_parses_back:
  assumes "document d"
  shows "json_loads pf (json_dumps d) = Some d"
proof -
  obtain c r where cr: "encode 0 d = c # r" and c: "opener c" using assms by (rule encode_head)
  have "scan_once pf (Suc (length (encode 0 d))) (encode 0 d @ []) = Some (d, [])"
    using assms by (intro scan_once_encoded) (simp_all add: delimited_simps)
  moreover have "skip_ws (encode 0 d) = encode 0 d"
    by (simp add: cr skip_ws_opener [OF c])
  ultimately show ?thesis
    by (simp add: json_loads_def json_dumps_def skip_ws_def)
qed

theorem serialized_document_witness:
  "document mixed_doc \<and> json_loads (\<lambda>t. t) (json_dumps mixed_doc) = Some mixed_doc"
proof -
  have h: "document mixed_doc" by code_simp
  from h serialized_document_parses_back [OF h, of "\<lambda>t. t"] show ?thesis by simp
qed

end
